theory Spec2Isabelle
  imports Complex_Main "HOL-Library.Char_ord"
begin

section \<open>Python string primitives used by ladders.py\<close>

text \<open>
  Strings are lists of characters. The model covers ASCII text: \<open>isalpha\<close> holds of the
  52 ASCII letters only (Python's \<open>str.isalpha\<close> also accepts letters beyond ASCII).
\<close>

definition isalpha :: "char \<Rightarrow> bool" where
  "isalpha c = (let n = (of_char c :: nat) in (65 \<le> n \<and> n \<le> 90) \<or> (97 \<le> n \<and> n \<le> 122))"

definition startswith :: "string \<Rightarrow> string \<Rightarrow> bool" where
  "startswith s p = (take (length p) s = p)"

definition endswith :: "string \<Rightarrow> string \<Rightarrow> bool" where
  "endswith s p = (length p \<le> length s \<and> drop (length s - length p) s = p)"

text \<open>\<open>s.find(sub)\<close>: the lowest index where \<open>sub\<close> occurs; Python's \<open>-1\<close> is \<open>None\<close>.\<close>

fun py_find :: "string \<Rightarrow> string \<Rightarrow> nat option" where
  "py_find [] sub = (if sub = [] then Some 0 else None)"
| "py_find (c # cs) sub =
     (if startswith (c # cs) sub then Some 0 else map_option Suc (py_find cs sub))"

text \<open>\<open>s.replace(old, new)\<close> for a non-empty \<open>old\<close>: non-overlapping occurrences, left to right.\<close>

fun py_replace :: "string \<Rightarrow> string \<Rightarrow> string \<Rightarrow> string" where
  "py_replace old new [] = []"
| "py_replace old new (c # cs) =
     (if startswith (c # cs) old then new @ py_replace old new (drop (length old - 1) cs)
      else c # py_replace old new cs)"

text \<open>\<open>s.split(sep)\<close> for a non-empty \<open>sep\<close>; \<open>cur\<close> is the piece being read.\<close>

fun split_from :: "string \<Rightarrow> string \<Rightarrow> string \<Rightarrow> string list" where
  "split_from sep cur [] = [cur]"
| "split_from sep cur (c # cs) =
     (if startswith (c # cs) sep then cur # split_from sep [] (drop (length sep - 1) cs)
      else split_from sep (cur @ [c]) cs)"

definition py_split :: "string \<Rightarrow> string \<Rightarrow> string list" where
  "py_split s sep = split_from sep [] s"

text \<open>\<open>s.strip(chars)\<close>: drops leading and trailing characters that occur in \<open>chars\<close>.\<close>

definition py_strip :: "string \<Rightarrow> string \<Rightarrow> string" where
  "py_strip s chars = rev (dropWhile (\<lambda>c. c \<in> set chars) (rev (dropWhile (\<lambda>c. c \<in> set chars) s)))"

section \<open>Dictionaries\<close>

text \<open>
  A Python \<open>dict\<close> keeps its keys in insertion order, and assigning to a key that is
  present keeps the key's position. It is modelled as an association list with distinct
  keys. Coefficients are Python numbers (\<open>int\<close> or \<open>complex\<close>); the model is polymorphic
  in the coefficient type, which only has to provide \<open>1\<close>, \<open>+\<close> and \<open>*\<close>.
\<close>

type_synonym 'c dict = "(string \<times> 'c) list"

fun dict_set :: "'c dict \<Rightarrow> string \<Rightarrow> 'c \<Rightarrow> 'c dict" where
  "dict_set [] k v = [(k, v)]"
| "dict_set ((k', v') # d) k v =
     (if k' = k then (k, v) # d else (k', v') # dict_set d k v)"

definition keys :: "'c dict \<Rightarrow> string list" where
  "keys d = map fst d"

datatype error = ValueError | AssertionError | IndexError | RecursionError

section \<open>The builtin \<open>complex(str)\<close>\<close>

text \<open>
  The parser calls \<open>complex(coeff_string)\<close>, which raises \<open>ValueError\<close> on a malformed
  literal. The parser below takes that conversion as a parameter \<open>cplx\<close> (\<open>None\<close> is the
  \<open>ValueError\<close>). \<open>py_complex\<close> is a concrete reading of the builtin for the strings the
  parser can pass, whose only letter is \<open>j\<close>: optional surrounding white space and
  parentheses, \<open>float\<close>, \<open>float j\<close>, \<open>float sign-float j\<close>, \<open>float sign j\<close>, \<open>sign j\<close>, \<open>j\<close>,
  and single underscores between digits. A float is an optional sign and decimal digits
  with an optional point, at least one digit in all. Exponents, \<open>inf\<close>, \<open>nan\<close> and \<open>J\<close> need
  a letter other than \<open>j\<close> and are not modelled. The value is the exact decimal; Python
  rounds it to the nearest double.
\<close>

definition py_isspace :: "char \<Rightarrow> bool" where
  "py_isspace c = (let n = (of_char c :: nat) in n = 32 \<or> (9 \<le> n \<and> n \<le> 13))"

definition py_isdigit :: "char \<Rightarrow> bool" where
  "py_isdigit c = (let n = (of_char c :: nat) in 48 \<le> n \<and> n \<le> 57)"

definition digits_value :: "string \<Rightarrow> nat" where
  "digits_value ds = foldl (\<lambda>a c. 10 * a + (of_char c - 48)) 0 ds"

fun strip_underscores :: "char \<Rightarrow> string \<Rightarrow> string option" where
  "strip_underscores prev [] = (if prev = CHR ''_'' then None else Some [])"
| "strip_underscores prev (c # cs) =
     (if c = CHR ''_'' then (if py_isdigit prev then strip_underscores c cs else None)
      else if prev = CHR ''_'' \<and> \<not> py_isdigit c then None
      else map_option ((#) c) (strip_underscores c cs))"

definition scan_unsigned :: "string \<Rightarrow> (real \<times> string) option" where
  "scan_unsigned s =
     (let ip = takeWhile py_isdigit s; r = dropWhile py_isdigit s;
          fp = (if startswith r ''.'' then takeWhile py_isdigit (tl r) else []);
          r' = (if startswith r ''.'' then dropWhile py_isdigit (tl r) else r)
      in if ip = [] \<and> fp = [] then None
         else Some (real (digits_value ip) + real (digits_value fp) / 10 ^ length fp, r'))"

definition scan_float :: "string \<Rightarrow> (real \<times> string) option" where
  "scan_float s =
     (if startswith s ''-'' then map_option (\<lambda>(v, r). (- v, r)) (scan_unsigned (tl s))
      else if startswith s ''+'' then scan_unsigned (tl s)
      else scan_unsigned s)"

definition sign_unit :: "string \<Rightarrow> real" where
  "sign_unit s = (if startswith s ''-'' then - 1 else 1)"

definition is_sign :: "string \<Rightarrow> bool" where
  "is_sign s = (startswith s ''+'' \<or> startswith s ''-'')"

definition complex_tail :: "bool \<Rightarrow> real \<Rightarrow> real \<Rightarrow> string \<Rightarrow> complex option" where
  "complex_tail got_bracket x y s =
     (let s1 = dropWhile py_isspace s
      in if got_bracket
         then (if startswith s1 '')'' \<and> dropWhile py_isspace (tl s1) = []
               then Some (Complex x y) else None)
         else (if s1 = [] then Some (Complex x y) else None))"

definition complex_from_string_inner :: "string \<Rightarrow> complex option" where
  "complex_from_string_inner s0 =
     (let s1 = dropWhile py_isspace s0;
          got_bracket = startswith s1 ''('';
          s = (if got_bracket then dropWhile py_isspace (tl s1) else s1)
      in case scan_float s of
           Some (z, r) \<Rightarrow>
             (if is_sign r then
                (case scan_float r of
                   Some (y, r') \<Rightarrow>
                     (if startswith r' ''j'' then complex_tail got_bracket z y (tl r') else None)
                 | None \<Rightarrow>
                     (if startswith (tl r) ''j''
                      then complex_tail got_bracket z (sign_unit r) (tl (tl r)) else None))
              else if startswith r ''j'' then complex_tail got_bracket 0 z (tl r)
              else complex_tail got_bracket z 0 r)
         | None \<Rightarrow>
             (let y = (if is_sign s then sign_unit s else 1);
                  r = (if is_sign s then tl s else s)
              in if startswith r ''j'' then complex_tail got_bracket 0 y (tl r) else None))"

definition py_complex :: "string \<Rightarrow> complex option" where
  "py_complex s =
     (case strip_underscores (CHR 0x00) s of
        None \<Rightarrow> None
      | Some s' \<Rightarrow> complex_from_string_inner s')"

section \<open>The class \<open>Expression\<close>\<close>

text \<open>
  The attributes \<open>cache\<close> (always \<open>None\<close>) and \<open>LOGGING\<close> (always \<open>False\<close>, so every
  \<open>print\<close> is skipped) do not influence any result and are left out.
\<close>

record 'c Expression =
  expr_dict :: "'c dict"
  modes :: string

fun first_alphabet_from :: "nat \<Rightarrow> string \<Rightarrow> nat" where
  "first_alphabet_from idx [] = 0"
| "first_alphabet_from idx (c # cs) =
     (if isalpha c \<and> c \<noteq> CHR ''j'' then idx else first_alphabet_from (Suc idx) cs)"

definition find_first_alphabet_index :: "string \<Rightarrow> nat" where
  "find_first_alphabet_index term_string = first_alphabet_from 0 term_string"

fun parse_terms :: "(string \<Rightarrow> 'c option) \<Rightarrow> string list \<Rightarrow> 'c::one dict \<Rightarrow> error + 'c dict" where
  "parse_terms cplx [] d = Inr d"
| "parse_terms cplx (t # terms) d =
     (let first_alphabet_idx = find_first_alphabet_index t;
          operators = drop first_alphabet_idx t
      in if first_alphabet_idx = 0 then parse_terms cplx terms (dict_set d operators 1)
         else (case cplx (take first_alphabet_idx t) of
                 None \<Rightarrow> Inl ValueError
               | Some v \<Rightarrow> parse_terms cplx terms (dict_set d operators v)))"

definition parse_expr_string :: "(string \<Rightarrow> 'c option) \<Rightarrow> string \<Rightarrow> error + 'c::one dict" where
  "parse_expr_string cplx expr_string =
     (if expr_string = [] then Inr [] else parse_terms cplx (py_split expr_string ''(+)'') [])"

definition add_mode :: "char \<Rightarrow> string \<Rightarrow> string" where
  "add_mode c ms = (if isalpha c \<and> c \<notin> set ms then ms @ [c] else ms)"

definition find_modes :: "'c dict \<Rightarrow> string" where
  "find_modes d =
     sort (fold (\<lambda>t ms. fold add_mode (py_strip t ''_+'') ms) (keys d) [])"

definition Expression_init :: "(string \<Rightarrow> 'c option) \<Rightarrow> string \<Rightarrow> error + 'c::one Expression" where
  "Expression_init cplx expr_string =
     (case parse_expr_string cplx expr_string of
        Inl e \<Rightarrow> Inl e
      | Inr d \<Rightarrow> Inr \<lparr>expr_dict = d, modes = find_modes d\<rparr>)"

section \<open>Term strings\<close>

definition clean_string :: "string \<Rightarrow> string" where
  "clean_string term_string =
     (let s1 = (if endswith term_string ''_'' then butlast term_string else term_string);
          s2 = (if startswith s1 ''_'' then tl s1 else s1)
      in py_replace ''__'' ''_'' s2)"

text \<open>
  \<open>add_expr_dicts\<close> updates \<open>dict1\<close> in place and returns it; the model returns the updated
  dictionary. \<open>dict1[key] += value\<close> adds the new value on the right.
\<close>

definition add_entry :: "string \<times> 'c \<Rightarrow> 'c::plus dict \<Rightarrow> 'c dict" where
  "add_entry kv dict1 =
     (case map_of dict1 (fst kv) of
        Some w \<Rightarrow> dict_set dict1 (fst kv) (w + snd kv)
      | None \<Rightarrow> dict_set dict1 (fst kv) (snd kv))"

definition add_expr_dicts :: "'c::plus dict \<Rightarrow> 'c dict \<Rightarrow> 'c dict" where
  "add_expr_dicts dict1 dict2 = fold add_entry dict2 dict1"

definition number_op :: "char \<Rightarrow> string" where
  "number_op mode = [mode] @ ''+_'' @ [mode]"

definition n_dag :: "char \<Rightarrow> string" where
  "n_dag mode = [mode] @ ''_'' @ [mode] @ ''+''"

text \<open>The two rewritten terms of the commutation relation, for a match at \<open>idx\<close>.\<close>

definition left_part :: "string \<Rightarrow> nat \<Rightarrow> string" where
  "left_part single_mode_term idx = clean_string (take idx single_mode_term)"

definition right_part :: "char \<Rightarrow> string \<Rightarrow> nat \<Rightarrow> string" where
  "right_part mode single_mode_term idx =
     clean_string (drop (idx + length (n_dag mode)) single_mode_term)"

definition term_with_n :: "char \<Rightarrow> string \<Rightarrow> nat \<Rightarrow> string" where
  "term_with_n mode single_mode_term idx =
     clean_string (left_part single_mode_term idx @ ''_'' @ number_op mode @ ''_''
                   @ right_part mode single_mode_term idx)"

definition term_with_1 :: "char \<Rightarrow> string \<Rightarrow> nat \<Rightarrow> string" where
  "term_with_1 mode single_mode_term idx =
     clean_string (left_part single_mode_term idx @ ''_'' @ right_part mode single_mode_term idx)"

text \<open>
  The recursion of \<open>normal_ordering\<close> is not structural. \<open>None\<close> stands for a recursion
  that never returns (which Python ends with a \<open>RecursionError\<close>).
\<close>

partial_function (option) normal_ordering :: "char \<Rightarrow> string \<Rightarrow> 'c::plus \<Rightarrow> 'c dict option" where
  "normal_ordering mode single_mode_term coeff =
     (case py_find single_mode_term (n_dag mode) of
        None \<Rightarrow> Some [(single_mode_term, coeff)]
      | Some idx \<Rightarrow>
          Option.bind (normal_ordering mode (term_with_n mode single_mode_term idx) coeff) (\<lambda>d1.
          Option.bind (normal_ordering mode (term_with_1 mode single_mode_term idx) coeff) (\<lambda>d2.
          Some (add_expr_dicts d1 d2))))"

declare normal_ordering.simps [code]

definition mult_entry :: "string \<times> 'c \<Rightarrow> string \<times> 'c \<Rightarrow> 'c::{plus,times} dict \<Rightarrow> 'c dict" where
  "mult_entry kv1 kv2 result =
     (let new_key = clean_string (fst kv1 @ ''_'' @ fst kv2)
      in case map_of result new_key of
           Some w \<Rightarrow> dict_set result new_key (w + snd kv1 * snd kv2)
         | None \<Rightarrow> dict_set result new_key (snd kv1 * snd kv2))"

definition multiply_normal_ordered_single_mode_dicts ::
    "'c::{plus,times} dict \<Rightarrow> 'c dict \<Rightarrow> 'c dict" where
  "multiply_normal_ordered_single_mode_dicts dict1 dict2 =
     fold (\<lambda>kv1 result. fold (mult_entry kv1) dict2 result) dict1 []"

definition organize_mode :: "string list \<Rightarrow> char \<Rightarrow> string \<Rightarrow> string" where
  "organize_mode operators mode organized_term =
     fold (\<lambda>operator org. if mode \<in> set operator then org @ operator @ ''_'' else org)
       operators organized_term"

definition hspace_organize :: "string \<Rightarrow> string" where
  "hspace_organize term_string =
     butlast (fold (organize_mode (py_split term_string ''_''))
                (find_modes [(term_string, 1::int)]) [])"

text \<open>
  The loop of \<open>split_modes\<close>: the state is the rest of the string and the pieces found so
  far; the \<open>assert\<close> is the \<open>AssertionError\<close> branch.
\<close>

fun split_loop :: "string \<Rightarrow> string \<Rightarrow> string list \<Rightarrow> error + (string \<times> string list)" where
  "split_loop [] multi_mode_string splitted = Inr (multi_mode_string, splitted)"
| "split_loop (mode # ms) multi_mode_string splitted =
     (case py_find multi_mode_string [mode] of
        None \<Rightarrow> Inl AssertionError
      | Some idx \<Rightarrow>
          split_loop ms (clean_string (drop idx multi_mode_string))
            (splitted @ [clean_string (take idx multi_mode_string)]))"

text \<open>\<open>list.remove(x)\<close> deletes the first occurrence and raises \<open>ValueError\<close> when there is none.\<close>

definition list_remove :: "'a list \<Rightarrow> 'a \<Rightarrow> error + 'a list" where
  "list_remove xs x = (if x \<in> set xs then Inr (remove1 x xs) else Inl ValueError)"

definition split_modes :: "string \<Rightarrow> error + string list" where
  "split_modes multi_mode_string =
     (case split_loop (find_modes [(multi_mode_string, 1::int)]) multi_mode_string [] of
        Inl e \<Rightarrow> Inl e
      | Inr (rest, splitted) \<Rightarrow> list_remove (splitted @ [clean_string rest]) [])"

section \<open>Multiplication, addition, power, scalar multiplication\<close>

text \<open>
  The loop over the single-mode terms of one product; \<open>single_mode_term[0]\<close> raises
  \<open>IndexError\<close> on an empty string, and \<open>not temp\<close> holds of the empty dictionary.
\<close>

fun combine_modes :: "string list \<Rightarrow> 'c::{one,plus,times} dict \<Rightarrow> error + 'c dict" where
  "combine_modes [] temp = Inr temp"
| "combine_modes (single_mode_term # rest) temp =
     (case single_mode_term of
        [] \<Rightarrow> Inl IndexError
      | mode # _ \<Rightarrow>
          (case normal_ordering mode single_mode_term 1 of
             None \<Rightarrow> Inl RecursionError
           | Some normal_ordered \<Rightarrow>
               combine_modes rest
                 (if temp = [] then normal_ordered
                  else multiply_normal_ordered_single_mode_dicts temp normal_ordered)))"

definition multiply_pair ::
    "string \<times> 'c \<Rightarrow> string \<times> 'c \<Rightarrow> 'c::{one,plus,times} dict \<Rightarrow> error + 'c dict" where
  "multiply_pair tc1 tc2 result =
     (let hspace_organized_term = hspace_organize (fst tc1 @ ''_'' @ fst tc2)
      in if fst tc1 = [] \<and> fst tc2 = []
         then Inr (add_expr_dicts result [([], snd tc1 * snd tc2)])
         else (case split_modes hspace_organized_term of
                 Inl e \<Rightarrow> Inl e
               | Inr single_mode_terms \<Rightarrow>
                   (case combine_modes single_mode_terms [] of
                      Inl e \<Rightarrow> Inl e
                    | Inr temp \<Rightarrow>
                        (let overall_coeff = snd tc1 * snd tc2
                         in Inr (add_expr_dicts result
                                   (map (\<lambda>(key, v). (key, v * overall_coeff)) temp))))))"

text \<open>A loop whose body may raise: the first error ends it.\<close>

fun for_each :: "('a \<Rightarrow> 's \<Rightarrow> error + 's) \<Rightarrow> 'a list \<Rightarrow> 's \<Rightarrow> error + 's" where
  "for_each body [] st = Inr st"
| "for_each body (x # xs) st =
     (case body x st of Inl e \<Rightarrow> Inl e | Inr st' \<Rightarrow> for_each body xs st')"

definition multiply :: "'c Expression \<Rightarrow> 'c Expression \<Rightarrow> error + 'c::{one,plus,times} Expression" where
  "multiply self other_expr =
     (case for_each (\<lambda>tc1 result. for_each (multiply_pair tc1) (expr_dict other_expr) result)
             (expr_dict self) []
      of Inl e \<Rightarrow> Inl e
       | Inr d \<Rightarrow> Inr \<lparr>expr_dict = d, modes = sort (remdups (modes self @ modes other_expr))\<rparr>)"

definition add :: "'c Expression \<Rightarrow> 'c Expression \<Rightarrow> 'c::plus Expression" where
  "add expr1 expr2 =
     (let d1 = fold (\<lambda>(t, coeff) d. dict_set d t coeff) (expr_dict expr1) [];
          d2 = fold add_entry (expr_dict expr2) d1
      in \<lparr>expr_dict = d2, modes = find_modes d2\<rparr>)"

text \<open>\<open>range(exponent - 1)\<close> is empty for \<open>exponent \<le> 1\<close>; \<open>deepcopy\<close> is the identity on values.\<close>

fun power_loop :: "nat \<Rightarrow> 'c Expression \<Rightarrow> 'c Expression \<Rightarrow> error + 'c::{one,plus,times} Expression" where
  "power_loop 0 result expr = Inr result"
| "power_loop (Suc k) result expr =
     (case multiply result expr of Inl e \<Rightarrow> Inl e | Inr r \<Rightarrow> power_loop k r expr)"

definition power_expr :: "'c Expression \<Rightarrow> int \<Rightarrow> error + 'c::{one,plus,times} Expression" where
  "power_expr expr exponent = power_loop (nat (exponent - 1)) expr expr"

text \<open>
  \<open>scalar_multiply\<close> starts from \<open>Expression("")\<close>, whose \<open>modes\<close> are those of the empty
  dictionary, and fills in \<open>expr_dict\<close> only.
\<close>

definition scalar_multiply :: "'c Expression \<Rightarrow> 'c \<Rightarrow> 'c::times Expression" where
  "scalar_multiply expr scalar =
     (let empty_dict = ([] :: 'c dict);
          result_modes = find_modes empty_dict
      in \<lparr>expr_dict = fold (\<lambda>(t, coeff) d. dict_set d t (coeff * scalar)) (expr_dict expr) empty_dict,
          modes = result_modes\<rparr>)"

section \<open>Token sequences\<close>

text \<open>
  The terms the engine is meant for: an operator token is a mode letter with a flag for
  the dagger (\<open>True\<close> is a creation operator, written \<open>a+\<close>); a term is a sequence of
  tokens joined by \<open>_\<close>, and the empty sequence is the constant term \<open>""\<close>.
\<close>

definition tok :: "char \<times> bool \<Rightarrow> string" where
  "tok t = (if snd t then [fst t, CHR ''+''] else [fst t])"

fun render :: "(char \<times> bool) list \<Rightarrow> string" where
  "render [] = []"
| "render [t] = tok t"
| "render (t # u # ts) = tok t @ ''_'' @ render (u # ts)"

definition wf_tokens :: "(char \<times> bool) list \<Rightarrow> bool" where
  "wf_tokens ts = (\<forall>t\<in>set ts. isalpha (fst t))"

text \<open>A single-mode term, given by the dagger flags of its tokens.\<close>

definition single_mode :: "char \<Rightarrow> bool list \<Rightarrow> (char \<times> bool) list" where
  "single_mode m bs = map (Pair m) bs"

text \<open>
  \<open>split_D\<close> finds the leftmost annihilation token immediately followed by a creation
  token and returns the tokens before and after that pair.
\<close>

fun split_D :: "bool list \<Rightarrow> (bool list \<times> bool list) option" where
  "split_D [] = None"
| "split_D [b] = None"
| "split_D (True # b # bs) = map_option (\<lambda>(pre, post). (True # pre, post)) (split_D (b # bs))"
| "split_D (False # True # bs) = Some ([], bs)"
| "split_D (False # False # bs) = map_option (\<lambda>(pre, post). (False # pre, post)) (split_D (False # bs))"

text \<open>
  \<open>inversions\<close> counts the pairs of an annihilation token standing somewhere before a
  creation token.
\<close>

fun inversions :: "bool list \<Rightarrow> nat" where
  "inversions [] = 0"
| "inversions (b # bs) = (if b then 0 else length (filter id bs)) + inversions bs"

definition normal_form :: "char \<Rightarrow> string \<Rightarrow> bool" where
  "normal_form m k = (\<exists>i j. k = render (single_mode m (replicate i True @ replicate j False)))"

text \<open>
  The tokens of one mode, in their order; the tokens of a multi-mode term grouped by mode
  with the modes ascending (what \<open>hspace_organize\<close> is meant to produce); \<open>us\<close> writes
  a delimiter after every token, as the loop of \<open>hspace_organize\<close> does.
\<close>

definition us :: "(char \<times> bool) list \<Rightarrow> string" where
  "us g = concat (map (\<lambda>t. tok t @ ''_'') g)"

definition group_of :: "(char \<times> bool) list \<Rightarrow> char \<Rightarrow> (char \<times> bool) list" where
  "group_of ts m = filter (\<lambda>t. fst t = m) ts"

definition mode_list :: "(char \<times> bool) list \<Rightarrow> string" where
  "mode_list ts = find_modes [(render ts, 1::int)]"

definition organized :: "(char \<times> bool) list \<Rightarrow> (char \<times> bool) list" where
  "organized ts = concat (map (group_of ts) (mode_list ts))"

definition groups :: "(char \<times> bool) list \<Rightarrow> (char \<times> bool) list list" where
  "groups ts = map (group_of ts) (mode_list ts)"

definition group_ok :: "char \<Rightarrow> (char \<times> bool) list \<Rightarrow> bool" where
  "group_ok m g = (isalpha m \<and> g \<noteq> [] \<and> (\<forall>t\<in>set g. fst t = m))"

text \<open>
  A well-formed Expression: every key of its dictionary is a token sequence whose mode
  characters are letters (the empty key included).
\<close>

definition wf_key :: "string \<Rightarrow> bool" where
  "wf_key k = (\<exists>ts. wf_tokens ts \<and> k = render ts)"

definition wf_dict :: "'c dict \<Rightarrow> bool" where
  "wf_dict d = (\<forall>k\<in>set (keys d). wf_key k)"

definition wf_expr :: "'c Expression \<Rightarrow> bool" where
  "wf_expr e = wf_dict (expr_dict e)"

section \<open>Lemmas: the parser and the mode registry\<close>

lemma isalpha_not_sep: "isalpha c \<Longrightarrow> c \<noteq> CHR ''_'' \<and> c \<noteq> CHR ''+''"
  by (auto simp: isalpha_def)

lemma map_of_dict_set: "map_of (dict_set d k v) k' = (if k' = k then Some v else map_of d k')"
  by (induction d) auto

lemma keys_dict_set: "set (keys (dict_set d k v)) = insert k (set (keys d))"
  by (induction d) (force simp: keys_def)+

lemma first_alphabet_from_range:
  "first_alphabet_from i s = 0 \<or>
   (i \<le> first_alphabet_from i s \<and> first_alphabet_from i s - i < length s \<and>
    isalpha (s ! (first_alphabet_from i s - i)) \<and> s ! (first_alphabet_from i s - i) \<noteq> CHR ''j'')"
proof (induction s arbitrary: i)
  case Nil
  then show ?case by simp
next
  case (Cons c cs)
  show ?case
  proof (cases "isalpha c \<and> c \<noteq> CHR ''j''")
    case True
    then show ?thesis by simp
  next
    case False
    from Cons.IH [of "Suc i"] False show ?thesis
      by (auto simp: Suc_diff_le)
  qed
qed

lemma first_alphabet_from_none:
  "\<forall>c\<in>set s. isalpha c \<longrightarrow> c = CHR ''j'' \<Longrightarrow> first_alphabet_from i s = 0"
  by (induction s arbitrary: i) auto

lemma operators_have_letter:
  assumes "0 < find_first_alphabet_index t"
  shows "\<exists>c\<in>set (drop (find_first_alphabet_index t) t). isalpha c \<and> c \<noteq> CHR ''j''"
proof -
  let ?i = "find_first_alphabet_index t"
  from first_alphabet_from_range [of 0 t] assms
  have "?i < length t" "isalpha (t ! ?i)" "t ! ?i \<noteq> CHR ''j''"
    by (auto simp: find_first_alphabet_index_def)
  moreover from \<open>?i < length t\<close> have "t ! ?i \<in> set (drop ?i t)"
    by (metis Cons_nth_drop_Suc list.set_intros(1))
  ultimately show ?thesis by blast
qed

lemma parse_terms_constant_key:
  assumes "parse_terms cplx terms d0 = Inr d"
    and "\<forall>c\<in>set k. isalpha c \<longrightarrow> c = CHR ''j''"
    and "k \<in> set terms \<or> map_of d0 k = Some 1"
  shows "map_of d k = Some 1"
  using assms
proof (induction terms arbitrary: d0)
  case Nil
  then show ?case by simp
next
  case (Cons t terms)
  have k0: "find_first_alphabet_index k = 0"
    using Cons.prems(2) by (simp add: find_first_alphabet_index_def first_alphabet_from_none)
  show ?case
  proof (cases "find_first_alphabet_index t = 0")
    case True
    with Cons.prems(1) have rest: "parse_terms cplx terms (dict_set d0 t 1) = Inr d"
      by simp
    from Cons.prems(3) have "k \<in> set terms \<or> map_of (dict_set d0 t 1) k = Some 1"
      by (auto simp: map_of_dict_set)
    with Cons.IH [OF rest Cons.prems(2)] show ?thesis by blast
  next
    case False
    then have pos: "0 < find_first_alphabet_index t" by simp
    let ?ops = "drop (find_first_alphabet_index t) t"
    from operators_have_letter [OF pos] Cons.prems(2) have ne: "k \<noteq> ?ops" by blast
    from False k0 have "k \<noteq> t" by auto
    from Cons.prems(1) False obtain v where
      rest: "parse_terms cplx terms (dict_set d0 ?ops v) = Inr d"
      by (auto simp: Let_def split: option.splits)
    from Cons.prems(3) \<open>k \<noteq> t\<close> ne have "k \<in> set terms \<or> map_of (dict_set d0 ?ops v) k = Some 1"
      by (auto simp: map_of_dict_set)
    with Cons.IH [OF rest Cons.prems(2)] show ?thesis by blast
  qed
qed

lemma parse_terms_bad_prefix:
  assumes "t \<in> set terms" "0 < find_first_alphabet_index t"
    "cplx (take (find_first_alphabet_index t) t) = None"
  shows "parse_terms cplx terms d0 = Inl ValueError"
  using assms
proof (induction terms arbitrary: d0)
  case Nil
  then show ?case by simp
next
  case (Cons u terms)
  show ?case
  proof (cases "u = t")
    case True
    with Cons.prems show ?thesis by simp
  next
    case False
    with Cons.prems have "t \<in> set terms" by simp
    from Cons.IH [OF this Cons.prems(2,3)] show ?thesis
      by (simp add: Let_def split: option.splits)
  qed
qed

lemma set_fold_add_mode: "set (fold add_mode s ms) = set ms \<union> {c \<in> set s. isalpha c}"
  by (induction s arbitrary: ms) (auto simp: add_mode_def)

lemma distinct_fold_add_mode: "distinct ms \<Longrightarrow> distinct (fold add_mode s ms)"
  by (induction s arbitrary: ms) (auto simp: add_mode_def)

lemma dropWhile_keeps: "x \<in> set s \<Longrightarrow> \<not> P x \<Longrightarrow> x \<in> set (dropWhile P s)"
  by (induction s) auto

lemma alpha_of_strip: "{c \<in> set (py_strip t ''_+''). isalpha c} = {c \<in> set t. isalpha c}"
proof -
  let ?P = "\<lambda>c. c \<in> set ''_+''"
  have keep: "\<And>c. isalpha c \<Longrightarrow> \<not> ?P c"
    using isalpha_not_sep by auto
  have "set (py_strip t ''_+'') \<subseteq> set t"
    unfolding py_strip_def by (metis set_dropWhileD set_rev subsetI)
  moreover have "c \<in> set (py_strip t ''_+'')" if "c \<in> set t" "isalpha c" for c
  proof -
    from that keep have "c \<in> set (dropWhile ?P t)" by (intro dropWhile_keeps) auto
    then have "c \<in> set (rev (dropWhile ?P t))" by simp
    with that keep have "c \<in> set (dropWhile ?P (rev (dropWhile ?P t)))"
      by (intro dropWhile_keeps) auto
    then show ?thesis by (simp add: py_strip_def)
  qed
  ultimately show ?thesis by blast
qed

lemma modes_loop_set:
  "set (fold (\<lambda>t ms. fold add_mode (py_strip t ''_+'') ms) ks ms0) =
     set ms0 \<union> {c. isalpha c \<and> (\<exists>k\<in>set ks. c \<in> set k)}"
proof (induction ks arbitrary: ms0)
  case Nil
  then show ?case by simp
next
  case (Cons k ks)
  have "{c \<in> set (py_strip k ''_+''). isalpha c} = {c \<in> set k. isalpha c}"
    by (rule alpha_of_strip)
  then show ?case
    by (auto simp: Cons.IH set_fold_add_mode)
qed

lemma modes_loop_distinct:
  "distinct ms0 \<Longrightarrow> distinct (fold (\<lambda>t ms. fold add_mode (py_strip t ''_+'') ms) ks ms0)"
  by (induction ks arbitrary: ms0) (auto simp: distinct_fold_add_mode)

lemma set_find_modes: "set (find_modes d) = {c. isalpha c \<and> (\<exists>k\<in>set (keys d). c \<in> set k)}"
  by (simp add: find_modes_def modes_loop_set)

lemma sorted_find_modes: "sorted_wrt (<) (find_modes d)"
  by (simp add: find_modes_def strict_sorted_iff modes_loop_distinct)

section \<open>Lemmas: term strings of token sequences\<close>

lemma render_Cons: "ts \<noteq> [] \<Longrightarrow> render (t # ts) = tok t @ ''_'' @ render ts"
  by (cases ts) auto

lemma render_append:
  "xs \<noteq> [] \<Longrightarrow> ys \<noteq> [] \<Longrightarrow> render (xs @ ys) = render xs @ ''_'' @ render ys"
proof (induction xs rule: render.induct)
  case 1
  then show ?case by simp
next
  case (2 t)
  then show ?case by (simp add: render_Cons)
next
  case (3 t u ts)
  then show ?case by simp
qed

lemma render_starts: "\<exists>r. render (t # ts) = fst t # r"
  by (cases ts) (auto simp: tok_def)

lemma render_eq_Nil [simp]: "render ts = [] \<longleftrightarrow> ts = []"
proof (cases ts)
  case Nil
  then show ?thesis by simp
next
  case (Cons t ts')
  obtain r where "render (t # ts') = fst t # r" using render_starts by blast
  with Cons show ?thesis by simp
qed

lemma render_last: "wf_tokens ts \<Longrightarrow> ts \<noteq> [] \<Longrightarrow> last (render ts) \<noteq> CHR ''_''"
proof (induction ts rule: render.induct)
  case 1
  then show ?case by simp
next
  case (2 t)
  then show ?case using isalpha_not_sep [of "fst t"] by (auto simp: tok_def wf_tokens_def)
next
  case (3 t u ts)
  then show ?case by (simp add: wf_tokens_def)
qed

lemma replace_skip: "c \<noteq> CHR ''_'' \<Longrightarrow> py_replace ''__'' ''_'' (c # cs) = c # py_replace ''__'' ''_'' cs"
  by (simp add: startswith_def)

lemma replace_render: "wf_tokens ts \<Longrightarrow> py_replace ''__'' ''_'' (render ts) = render ts"
proof (induction ts rule: render.induct)
  case 1
  then show ?case by simp
next
  case (2 t)
  then show ?case using isalpha_not_sep [of "fst t"]
    by (auto simp: tok_def wf_tokens_def startswith_def)
next
  case (3 t u ts)
  obtain r where r: "render (u # ts) = fst u # r" using render_starts by blast
  from 3 have wf: "wf_tokens (u # ts)" and a: "isalpha (fst t)" and b: "isalpha (fst u)"
    by (auto simp: wf_tokens_def)
  from 3(1) [OF wf] r have ih: "py_replace ''__'' ''_'' (fst u # r) = fst u # r" by simp
  from isalpha_not_sep [OF b] have "py_replace ''__'' ''_'' (fst u # r) = fst u # py_replace ''__'' ''_'' r"
    by (rule replace_skip [OF conjunct1])
  with ih have ih': "py_replace ''__'' ''_'' r = r" by simp
  show ?case using isalpha_not_sep [OF a] isalpha_not_sep [OF b] ih'
    by (simp add: tok_def r startswith_def)
qed

lemma endswith_last: "endswith s ''_'' \<longleftrightarrow> s \<noteq> [] \<and> last s = CHR ''_''"
proof (cases s rule: rev_cases)
  case Nil
  then show ?thesis by (simp add: endswith_def)
next
  case (snoc r c)
  then show ?thesis by (simp add: endswith_def)
qed

lemma startswith_hd: "startswith s ''_'' \<longleftrightarrow> s \<noteq> [] \<and> hd s = CHR ''_''"
  by (cases s) (simp_all add: startswith_def)

lemma render_hd: "wf_tokens ts \<Longrightarrow> ts \<noteq> [] \<Longrightarrow> hd (render ts) \<noteq> CHR ''_''"
proof -
  assume wf: "wf_tokens ts" and ne: "ts \<noteq> []"
  then obtain t ts' where c: "ts = t # ts'" by (cases ts) auto
  obtain r where r: "render (t # ts') = fst t # r" using render_starts by blast
  from wf c have "isalpha (fst t)" by (simp add: wf_tokens_def)
  with isalpha_not_sep r c show ?thesis by simp
qed

lemma clean_plain:
  assumes "s = [] \<or> (hd s \<noteq> CHR ''_'' \<and> last s \<noteq> CHR ''_'')"
    and "py_replace ''__'' ''_'' s = s"
  shows "clean_string s = s"
  using assms by (auto simp: clean_string_def endswith_last startswith_hd)

lemma clean_trailing:
  assumes "s = [] \<or> hd s \<noteq> CHR ''_''" and "py_replace ''__'' ''_'' s = s"
  shows "clean_string (s @ ''_'') = s"
proof -
  have "endswith (s @ ''_'') ''_''" by (simp add: endswith_last)
  moreover have "butlast (s @ ''_'') = s" by (simp add: butlast_append)
  moreover from assms(1) have "\<not> startswith s ''_''" by (auto simp: startswith_hd)
  ultimately show ?thesis using assms(2) by (simp add: clean_string_def)
qed

lemma clean_leading:
  assumes "s \<noteq> []" "last s \<noteq> CHR ''_''" and "py_replace ''__'' ''_'' s = s"
  shows "clean_string (CHR ''_'' # s) = s"
proof -
  from assms(1,2) have "\<not> endswith (CHR ''_'' # s) ''_''" by (simp add: endswith_last)
  moreover have "startswith (CHR ''_'' # s) ''_''" by (simp add: startswith_hd)
  ultimately show ?thesis using assms(3) by (simp add: clean_string_def)
qed

lemma clean_both:
  assumes "py_replace ''__'' ''_'' s = s"
  shows "clean_string (CHR ''_'' # s @ ''_'') = s"
proof -
  have "endswith (CHR ''_'' # s @ ''_'') ''_''" by (simp add: endswith_last)
  moreover have "butlast (CHR ''_'' # s @ ''_'') = CHR ''_'' # s" by (simp add: butlast_append)
  moreover have "startswith (CHR ''_'' # s) ''_''" by (simp add: startswith_hd)
  ultimately show ?thesis using assms by (simp add: clean_string_def)
qed

lemma clean_render: "wf_tokens ts \<Longrightarrow> clean_string (render ts) = render ts"
  by (rule clean_plain) (auto simp: render_hd render_last replace_render)

lemma clean_render_us: "wf_tokens ts \<Longrightarrow> clean_string (render ts @ ''_'') = render ts"
  by (rule clean_trailing) (auto simp: render_hd replace_render)

lemma clean_us_render: "wf_tokens ts \<Longrightarrow> clean_string (''_'' @ render ts) = render ts"
proof (cases "ts = []")
  case True
  then show ?thesis by (simp add: clean_string_def endswith_def startswith_def)
next
  case False
  assume wf: "wf_tokens ts"
  from False have "render ts \<noteq> []" by simp
  from clean_leading [OF this render_last [OF wf False] replace_render [OF wf]]
  show ?thesis by simp
qed

lemma clean_us_render_us: "wf_tokens ts \<Longrightarrow> clean_string (''_'' @ render ts @ ''_'') = render ts"
  using clean_both [OF replace_render] by simp

lemma wf_tokens_append [simp]: "wf_tokens (xs @ ys) \<longleftrightarrow> wf_tokens xs \<and> wf_tokens ys"
  by (auto simp: wf_tokens_def)

lemma clean_join:
  assumes "wf_tokens xs" "wf_tokens ys"
  shows "clean_string (render xs @ ''_'' @ render ys) = render (xs @ ys)"
proof (cases "xs = []")
  case True
  with clean_us_render [OF assms(2)] show ?thesis by simp
next
  case False
  show ?thesis
  proof (cases "ys = []")
    case True
    with clean_render_us [OF assms(1)] show ?thesis by simp
  next
    case ys: False
    from assms have "wf_tokens (xs @ ys)" by simp
    from clean_render [OF this] render_append [OF False ys] show ?thesis by simp
  qed
qed

lemma clean_join3:
  assumes "wf_tokens xs" "wf_tokens ys" "wf_tokens zs" "ys \<noteq> []"
  shows "clean_string (render xs @ ''_'' @ render ys @ ''_'' @ render zs) = render (xs @ ys @ zs)"
proof (cases "zs = []")
  case True
  show ?thesis
  proof (cases "xs = []")
    case xs: True
    with True clean_us_render_us [OF assms(2)] show ?thesis by simp
  next
    case xs: False
    from assms have wf: "wf_tokens (xs @ ys)" by simp
    from clean_render_us [OF wf] render_append [OF xs assms(4)] True show ?thesis by simp
  qed
next
  case False
  from render_append [OF assms(4) False] 
  have "render xs @ ''_'' @ render ys @ ''_'' @ render zs = render xs @ ''_'' @ render (ys @ zs)"
    by simp
  moreover from assms have "wf_tokens (ys @ zs)" by simp
  ultimately show ?thesis using clean_join [OF assms(1), of "ys @ zs"] by simp
qed

lemma single_mode_simps [simp]:
  "single_mode m [] = []" "single_mode m (b # bs) = (m, b) # single_mode m bs"
  "single_mode m (xs @ ys) = single_mode m xs @ single_mode m ys"
  "single_mode m bs = [] \<longleftrightarrow> bs = []"
  by (simp_all add: single_mode_def)

lemma wf_single_mode [simp]: "isalpha m \<Longrightarrow> wf_tokens (single_mode m bs)"
  by (simp add: wf_tokens_def single_mode_def)

lemma split_D_Some: "split_D bs = Some (pre, post) \<Longrightarrow> bs = pre @ [False, True] @ post"
  by (induction bs arbitrary: pre rule: split_D.induct) auto

lemma split_D_None: "split_D bs = None \<Longrightarrow> \<exists>i j. bs = replicate i True @ replicate j False"
proof (induction bs rule: split_D.induct)
  case 1
  then show ?case by simp
next
  case (2 b)
  show ?case
  proof (cases b)
    case True
    then have "[b] = replicate 1 True @ replicate 0 False" by simp
    then show ?thesis by blast
  next
    case False
    then have "[b] = replicate 0 True @ replicate 1 False" by simp
    then show ?thesis by blast
  qed
next
  case (3 b bs)
  then obtain i j where "b # bs = replicate i True @ replicate j False" by auto
  then have "True # b # bs = replicate (Suc i) True @ replicate j False" by simp
  then show ?case by blast
next
  case (4 bs)
  then show ?case by simp
next
  case (5 bs)
  then obtain i j where ij: "False # bs = replicate i True @ replicate j False" by auto
  then have "i = 0" by (cases i) auto
  with ij have "False # False # bs = replicate 0 True @ replicate (Suc j) False" by simp
  then show ?case by blast
qed

lemma split_D_sorted: "split_D (replicate i True @ replicate j False) = None"
proof (induction i)
  case 0
  show ?case
  proof (induction j)
    case 0
    then show ?case by simp
  next
    case (Suc j)
    then show ?case by (cases j) auto
  qed
next
  case (Suc i)
  then show ?case
    by (cases "replicate i True @ replicate j False") auto
qed

lemma length_render_Cons:
  "length (render (t # ts)) = length (tok t) + (if ts = [] then 0 else Suc (length (render ts)))"
  by (cases ts) auto

lemma find_render:
  assumes m: "isalpha m"
  shows "py_find (render (single_mode m bs)) (n_dag m) =
     (case split_D bs of None \<Rightarrow> None
      | Some (pre, post) \<Rightarrow> Some (length (render (single_mode m pre)) + (if pre = [] then 0 else 1)))"
proof (induction bs rule: split_D.induct)
  case 1
  then show ?case by (simp add: n_dag_def)
next
  case (2 b)
  then show ?case by (simp add: n_dag_def tok_def startswith_def)
next
  case (3 b bs)
  let ?R = "render (single_mode m (b # bs))"
  from isalpha_not_sep [OF m] have ne: "m \<noteq> CHR ''_''" "m \<noteq> CHR ''+''" "CHR ''_'' \<noteq> m" "CHR ''+'' \<noteq> m"
    by auto
  have "render (single_mode m (True # b # bs)) = m # CHR ''+'' # CHR ''_'' # ?R"
    by (simp add: tok_def)
  moreover from ne have "py_find (m # CHR ''+'' # CHR ''_'' # ?R) (n_dag m) =
       map_option (\<lambda>i. Suc (Suc (Suc i))) (py_find ?R (n_dag m))"
    by (simp add: n_dag_def startswith_def option.map_comp comp_def)
  ultimately have step: "py_find (render (single_mode m (True # b # bs))) (n_dag m) =
       map_option (\<lambda>i. Suc (Suc (Suc i))) (py_find ?R (n_dag m))"
    by simp
  show ?case unfolding step 3
    by (auto simp: tok_def length_render_Cons split: option.splits)
next
  case (4 bs)
  then show ?case by (cases bs) (simp_all add: tok_def n_dag_def startswith_def)
next
  case (5 bs)
  let ?R = "render (single_mode m (False # bs))"
  from isalpha_not_sep [OF m] have ne: "m \<noteq> CHR ''_''" "m \<noteq> CHR ''+''" "CHR ''_'' \<noteq> m" "CHR ''+'' \<noteq> m"
    by auto
  obtain r where r: "?R = m # r" and r': "r = [] \<or> (\<exists>r'. r = CHR ''_'' # r')"
    by (cases bs) (auto simp: tok_def)
  have "render (single_mode m (False # False # bs)) = m # CHR ''_'' # ?R"
    by (simp add: tok_def)
  moreover from ne r' have "py_find (m # CHR ''_'' # m # r) (n_dag m) =
       map_option (\<lambda>i. Suc (Suc i)) (py_find (m # r) (n_dag m))"
    by (auto simp add: n_dag_def startswith_def option.map_comp comp_def)
  ultimately have step: "py_find (render (single_mode m (False # False # bs))) (n_dag m) =
       map_option (\<lambda>i. Suc (Suc i)) (py_find ?R (n_dag m))"
    using r by simp
  show ?case unfolding step 5
    by (auto simp: tok_def length_render_Cons split: option.splits)
qed

section \<open>Lemmas: the normal-order reducer\<close>

lemma number_op_render: "number_op m = render (single_mode m [True, False])"
  by (simp add: number_op_def tok_def)

lemma wf_tokens_Nil [simp]: "wf_tokens []"
  by (simp add: wf_tokens_def)

lemma clean_string_Nil [simp]: "clean_string [] = []"
  by (simp add: clean_string_def endswith_def startswith_def)

lemma render_append_gen:
  "render (xs @ ys) = render xs @ (if xs = [] \<or> ys = [] then [] else ''_'') @ render ys"
  by (simp add: render_append)

lemma rewrite_terms:
  assumes m: "isalpha m" and sp: "split_D bs = Some (pre, post)"
  shows "\<exists>idx. py_find (render (single_mode m bs)) (n_dag m) = Some idx
           \<and> term_with_n m (render (single_mode m bs)) idx
               = render (single_mode m (pre @ [True, False] @ post))
           \<and> term_with_1 m (render (single_mode m bs)) idx
               = render (single_mode m (pre @ post))"
proof -
  let ?P = "render (single_mode m pre)" and ?Q = "render (single_mode m post)"
  let ?s1 = "if pre = [] then [] else ''_''" and ?s2 = "if post = [] then [] else ''_''"
  let ?idx = "length ?P + (if pre = [] then 0 else 1)"
  from split_D_Some [OF sp] have bs: "bs = pre @ [False, True] @ post" .
  have str: "render (single_mode m bs) = (?P @ ?s1) @ n_dag m @ (?s2 @ ?Q)"
    unfolding bs by (simp add: render_append_gen render_Cons n_dag_def tok_def)
  have idx: "py_find (render (single_mode m bs)) (n_dag m) = Some ?idx"
    using find_render [OF m, of bs] sp by simp
  have len: "length (?P @ ?s1) = ?idx" by simp
  have tk: "take ?idx (render (single_mode m bs)) = ?P @ ?s1"
    unfolding str len [symmetric] by simp
  have dr: "drop (?idx + length (n_dag m)) (render (single_mode m bs)) = ?s2 @ ?Q"
    unfolding str len [symmetric] by (simp add: n_dag_def)
  have left: "left_part (render (single_mode m bs)) ?idx = ?P"
    unfolding left_part_def tk using clean_render_us [of "single_mode m pre"] clean_render [of "single_mode m pre"] m
    by (cases "pre = []") simp_all
  have right: "right_part m (render (single_mode m bs)) ?idx = ?Q"
    unfolding right_part_def dr using clean_us_render [of "single_mode m post"] clean_render [of "single_mode m post"] m
    by (cases "post = []") simp_all
  have wn: "term_with_n m (render (single_mode m bs)) ?idx = render (single_mode m (pre @ [True, False] @ post))"
  proof -
    have "clean_string (?P @ ''_'' @ render (single_mode m [True, False]) @ ''_'' @ ?Q)
            = render (single_mode m pre @ single_mode m [True, False] @ single_mode m post)"
      by (rule clean_join3) (simp_all add: m del: single_mode_simps(2))
    then show ?thesis
      unfolding term_with_n_def left right number_op_render by (simp del: render.simps)
  qed
  have w1: "term_with_1 m (render (single_mode m bs)) ?idx = render (single_mode m (pre @ post))"
  proof -
    have "clean_string (?P @ ''_'' @ ?Q) = render (single_mode m pre @ single_mode m post)"
      by (rule clean_join) (simp_all add: m)
    then show ?thesis
      unfolding term_with_1_def left right by (simp del: render.simps)
  qed
  from idx wn w1 show ?thesis by blast
qed

lemma inversions_append:
  "inversions (xs @ ys) = inversions xs + inversions ys + length (filter Not xs) * length (filter id ys)"
  by (induction xs) (auto simp: algebra_simps id_def)

lemma inversions_swap:
  "inversions (pre @ [False, True] @ post) = Suc (inversions (pre @ [True, False] @ post))"
  by (simp add: inversions_append)

lemma inversions_drop:
  "inversions (pre @ post) < inversions (pre @ [False, True] @ post)"
  by (simp add: inversions_append)

lemma keys_add_entry: "set (keys (add_entry kv d)) = insert (fst kv) (set (keys d))"
  by (simp add: add_entry_def keys_dict_set split: option.splits)

lemma keys_add_expr_dicts: "set (keys (add_expr_dicts d1 d2)) = set (keys d1) \<union> set (keys d2)"
  unfolding add_expr_dicts_def
proof (induction d2 arbitrary: d1)
  case Nil
  then show ?case by (simp add: keys_def)
next
  case (Cons kv d2)
  have "set (keys (kv # d2)) = insert (fst kv) (set (keys d2))" by (simp add: keys_def)
  then show ?case by (simp add: Cons.IH keys_add_entry)
qed

lemma normal_ordering_total:
  assumes m: "isalpha m"
  shows "\<exists>d. normal_ordering m (render (single_mode m bs)) c = Some d \<and> d \<noteq> []
            \<and> (\<forall>k\<in>set (keys d). normal_form m k)"
proof (induction bs rule: measure_induct_rule [where f = inversions])
  case (less bs)
  show ?case
  proof (cases "split_D bs")
    case None
    with find_render [OF m, of bs] have "py_find (render (single_mode m bs)) (n_dag m) = None"
      by simp
    then have "normal_ordering m (render (single_mode m bs)) c = Some [(render (single_mode m bs), c)]"
      by (subst normal_ordering.simps) simp
    moreover from split_D_None [OF None] have "normal_form m (render (single_mode m bs))"
      unfolding normal_form_def by blast
    ultimately show ?thesis by (simp add: keys_def)
  next
    case (Some pp)
    then obtain pre post where sp: "split_D bs = Some (pre, post)" by (cases pp) auto
    from split_D_Some [OF sp] have bs: "bs = pre @ [False, True] @ post" .
    from rewrite_terms [OF m sp] obtain idx where
      idx: "py_find (render (single_mode m bs)) (n_dag m) = Some idx"
      and wn: "term_with_n m (render (single_mode m bs)) idx = render (single_mode m (pre @ [True, False] @ post))"
      and w1: "term_with_1 m (render (single_mode m bs)) idx = render (single_mode m (pre @ post))"
      by blast
    have "inversions (pre @ [True, False] @ post) < inversions bs"
      unfolding bs inversions_swap by simp
    from less [OF this] obtain d1 where
      d1: "normal_ordering m (render (single_mode m (pre @ [True, False] @ post))) c = Some d1"
      "d1 \<noteq> []" "\<forall>k\<in>set (keys d1). normal_form m k" by blast
    have "inversions (pre @ post) < inversions bs"
      unfolding bs by (rule inversions_drop)
    from less [OF this] obtain d2 where
      d2: "normal_ordering m (render (single_mode m (pre @ post))) c = Some d2"
      "d2 \<noteq> []" "\<forall>k\<in>set (keys d2). normal_form m k" by blast
    have res: "normal_ordering m (render (single_mode m bs)) c = Some (add_expr_dicts d1 d2)"
      using d1(1) d2(1) by (subst normal_ordering.simps) (simp add: idx wn w1)
    have "set (keys (add_expr_dicts d1 d2)) = set (keys d1) \<union> set (keys d2)"
      by (rule keys_add_expr_dicts)
    with d1(2) have "set (keys (add_expr_dicts d1 d2)) \<noteq> {}"
      by (cases d1) (auto simp: keys_def)
    then have "add_expr_dicts d1 d2 \<noteq> []" by (auto simp: keys_def)
    with res d1(3) d2(3) show ?thesis
      by (auto simp: keys_add_expr_dicts)
  qed
qed

lemma normal_form_no_D:
  assumes "isalpha m" "normal_form m k"
  shows "py_find k (n_dag m) = None"
proof -
  from assms(2) obtain i j where "k = render (single_mode m (replicate i True @ replicate j False))"
    unfolding normal_form_def by blast
  with find_render [OF assms(1), of "replicate i True @ replicate j False"] split_D_sorted [of i j]
  show ?thesis by simp
qed

lemma find_Some_split:
  assumes "isalpha m" "py_find (render (single_mode m bs)) (n_dag m) = Some idx"
  shows "\<exists>pre post. split_D bs = Some (pre, post)"
  using find_render [OF assms(1), of bs] assms(2) by (cases "split_D bs") auto

section \<open>Lemmas: organizing, splitting and multiplying\<close>

lemma split_from_char:
  "split_from [c] cur (a @ c # b) = split_from [c] cur a @ split_from [c] [] b"
  by (induction a arbitrary: cur) (auto simp: startswith_def)

lemma split_from_none: "c \<notin> set a \<Longrightarrow> split_from [c] cur a = [cur @ a]"
  by (induction a arbitrary: cur) (auto simp: startswith_def)

lemma tok_no_us: "isalpha (fst t) \<Longrightarrow> CHR ''_'' \<notin> set (tok t)"
  using isalpha_not_sep [of "fst t"] by (auto simp: tok_def)

lemma split_render:
  "wf_tokens ts \<Longrightarrow> py_split (render ts) ''_'' = (if ts = [] then [[]] else map tok ts)"
proof (induction ts rule: render.induct)
  case 1
  then show ?case by (simp add: py_split_def)
next
  case (2 t)
  then have "CHR ''_'' \<notin> set (tok t)" by (simp add: tok_no_us wf_tokens_def)
  then show ?case by (simp add: py_split_def split_from_none)
next
  case (3 t u ts)
  then have no: "CHR ''_'' \<notin> set (tok t)" and wf: "wf_tokens (u # ts)"
    by (simp_all add: tok_no_us wf_tokens_def)
  have "py_split (render (t # u # ts)) ''_''
      = split_from ''_'' [] (tok t) @ split_from ''_'' [] (render (u # ts))"
    using split_from_char [of "CHR ''_''" "[]" "tok t" "render (u # ts)"]
    by (simp add: py_split_def)
  also have "split_from ''_'' [] (tok t) = [tok t]"
    using split_from_none [OF no, of "[]"] by simp
  finally show ?case using 3(1) [OF wf] by (simp add: py_split_def)
qed

lemma split_product:
  assumes "wf_tokens ts1" "wf_tokens ts2"
  shows "py_split (render ts1 @ ''_'' @ render ts2) ''_''
    = (if ts1 = [] then [[]] else map tok ts1) @ (if ts2 = [] then [[]] else map tok ts2)"
proof -
  have "py_split (render ts1 @ ''_'' @ render ts2) ''_''
      = py_split (render ts1) ''_'' @ py_split (render ts2) ''_''"
    using split_from_char [of "CHR ''_''" "[]" "render ts1" "render ts2"]
    by (simp add: py_split_def)
  with split_render [OF assms(1)] split_render [OF assms(2)] show ?thesis by simp
qed

lemma mode_in_tok: "isalpha m \<Longrightarrow> m \<in> set (tok t) \<longleftrightarrow> fst t = m"
  using isalpha_not_sep [of m] by (auto simp: tok_def)

lemma organize_mode_eq:
  "organize_mode opers m org = org @ concat (map (\<lambda>operator. operator @ ''_'') (filter (\<lambda>operator. m \<in> set operator) opers))"
  unfolding organize_mode_def
  by (induction opers arbitrary: org) auto

lemma filter_opers:
  assumes "isalpha m"
  shows "filter (\<lambda>operator. m \<in> set operator) (if ts = [] then [[]] else map tok ts)
           = map tok (group_of ts m)"
proof -
  have "filter (\<lambda>operator. m \<in> set operator) (map tok ts) = map tok (group_of ts m)"
    using assms by (induction ts) (auto simp: mode_in_tok group_of_def)
  then show ?thesis by (simp add: group_of_def)
qed

lemma organize_mode_product:
  assumes "isalpha m"
  shows "organize_mode ((if ts1 = [] then [[]] else map tok ts1) @ (if ts2 = [] then [[]] else map tok ts2)) m org
           = org @ us (group_of (ts1 @ ts2) m)"
proof -
  have "filter (\<lambda>operator. m \<in> set operator)
          ((if ts1 = [] then [[]] else map tok ts1) @ (if ts2 = [] then [[]] else map tok ts2))
        = map tok (group_of (ts1 @ ts2) m)"
    using filter_opers [OF assms, of ts1] filter_opers [OF assms, of ts2]
    by (simp add: group_of_def)
  then show ?thesis
    by (simp add: organize_mode_eq us_def comp_def)
qed

lemma us_append: "us (g @ h) = us g @ us h"
  by (simp add: us_def)

lemma us_render: "g \<noteq> [] \<Longrightarrow> us g = render g @ ''_''"
proof (induction g rule: render.induct)
  case 1
  then show ?case by simp
next
  case (2 t)
  then show ?case by (simp add: us_def)
next
  case (3 t u ts)
  then show ?case by (simp add: us_def)
qed

lemma butlast_us: "butlast (us g) = render g"
  by (cases "g = []") (simp_all add: us_render butlast_append, simp add: us_def)

lemma organize_fold:
  assumes "\<forall>m\<in>set ms. isalpha m"
  shows "fold (organize_mode ((if ts1 = [] then [[]] else map tok ts1) @ (if ts2 = [] then [[]] else map tok ts2))) ms org
           = org @ us (concat (map (group_of (ts1 @ ts2)) ms))"
  using assms
proof (induction ms arbitrary: org)
  case Nil
  then show ?case by (simp add: us_def)
next
  case (Cons m ms)
  then show ?case
    by (simp add: organize_mode_product us_append)
qed

lemma set_render_lower: "fst ` set ts \<subseteq> set (render ts)"
  by (induction ts rule: render.induct) (auto simp: tok_def)

lemma set_render_upper: "set (render ts) \<subseteq> fst ` set ts \<union> {CHR ''+'', CHR ''_''}"
  by (induction ts rule: render.induct) (auto simp: tok_def split: if_splits)

lemma alpha_render: "wf_tokens ts \<Longrightarrow> {c \<in> set (render ts). isalpha c} = fst ` set ts"
proof -
  assume wf: "wf_tokens ts"
  have "\<not> isalpha CHR ''+''" "\<not> isalpha CHR ''_''" by (simp_all add: isalpha_def)
  with set_render_upper [of ts] have "{c \<in> set (render ts). isalpha c} \<subseteq> fst ` set ts"
    by auto
  moreover from wf set_render_lower [of ts] have "fst ` set ts \<subseteq> {c \<in> set (render ts). isalpha c}"
    by (auto simp: wf_tokens_def)
  ultimately show ?thesis by blast
qed

lemma find_modes_string:
  "set (find_modes [(s, c)]) = {x \<in> set s. isalpha x}" "sorted_wrt (<) (find_modes [(s, c)])"
  by (auto simp: set_find_modes sorted_find_modes keys_def)

lemma strict_sorted_unique:
  "sorted_wrt (<) xs \<Longrightarrow> sorted_wrt (<) ys \<Longrightarrow> set xs = set ys \<Longrightarrow> xs = (ys :: char list)"
  by (simp add: strict_sorted_iff sorted_distinct_set_unique)

lemma mode_list_props:
  assumes "wf_tokens ts"
  shows "set (mode_list ts) = fst ` set ts" "sorted_wrt (<) (mode_list ts)"
  using alpha_render [OF assms] by (simp_all add: mode_list_def find_modes_string)

lemma find_modes_product:
  assumes "wf_tokens ts1" "wf_tokens ts2"
  shows "find_modes [(render ts1 @ ''_'' @ render ts2, 1::int)] = mode_list (ts1 @ ts2)"
proof (rule strict_sorted_unique)
  have "\<not> isalpha CHR ''_''" by (simp add: isalpha_def)
  then have "{x \<in> set (render ts1 @ ''_'' @ render ts2). isalpha x}
      = {x \<in> set (render ts1). isalpha x} \<union> {x \<in> set (render ts2). isalpha x}"
    by auto
  with alpha_render [OF assms(1)] alpha_render [OF assms(2)] assms
  show "set (find_modes [(render ts1 @ ''_'' @ render ts2, 1::int)]) = set (mode_list (ts1 @ ts2))"
    by (simp add: find_modes_string mode_list_props image_Un)
qed (simp_all add: find_modes_string mode_list_def)

lemma set_organized: "wf_tokens ts \<Longrightarrow> set (organized ts) = set ts"
  by (auto simp: organized_def group_of_def mode_list_props)

lemma wf_organized: "wf_tokens ts \<Longrightarrow> wf_tokens (organized ts)"
  by (simp add: wf_tokens_def set_organized [unfolded wf_tokens_def])

lemma hspace_organize_product:
  assumes "wf_tokens ts1" "wf_tokens ts2"
  shows "hspace_organize (render ts1 @ ''_'' @ render ts2) = render (organized (ts1 @ ts2))"
proof -
  from assms have wf: "wf_tokens (ts1 @ ts2)" by simp
  have al: "\<forall>m\<in>set (mode_list (ts1 @ ts2)). isalpha m"
    using wf by (auto simp: mode_list_props wf_tokens_def)
  show ?thesis
    unfolding hspace_organize_def find_modes_product [OF assms] split_product [OF assms]
    by (simp only: organize_fold [OF al] append_Nil butlast_us organized_def)
qed

lemma mode_list_organized:
  assumes "wf_tokens ts"
  shows "mode_list (organized ts) = mode_list ts"
proof (rule strict_sorted_unique)
  show "set (mode_list (organized ts)) = set (mode_list ts)"
    by (simp add: mode_list_props wf_organized assms set_organized)
qed (simp_all add: mode_list_props wf_organized assms)

lemma find_char: "m \<notin> set p \<Longrightarrow> py_find (p @ m # r) [m] = Some (length p)"
  by (induction p) (auto simp: startswith_def)

lemma group_ok_wf: "group_ok m g \<Longrightarrow> wf_tokens g"
  by (auto simp: group_ok_def wf_tokens_def)

lemma wf_concat: "\<forall>g\<in>set gs. wf_tokens g \<Longrightarrow> wf_tokens (concat gs)"
  by (auto simp: wf_tokens_def)

lemma groups_wf: "list_all2 group_ok ms gs \<Longrightarrow> g \<in> set gs \<Longrightarrow> wf_tokens g"
  by (induction rule: list_all2_induct) (auto intro: group_ok_wf)

lemma split_loop_groups:
  "list_all2 group_ok ms gs \<Longrightarrow> distinct ms \<Longrightarrow> wf_tokens h \<Longrightarrow> \<forall>m\<in>set ms. m \<notin> fst ` set h
    \<Longrightarrow> split_loop ms (render (h @ concat gs)) acc
           = Inr (render (last (h # gs)), acc @ map render (butlast (h # gs)))"
proof (induction arbitrary: h acc rule: list_all2_induct)
  case Nil
  then show ?case by simp
next
  case (Cons m ms' g gs)
  note g = Cons.hyps(1) and rest = Cons.hyps(2)
  from groups_wf [OF rest] have wfgs: "\<forall>x\<in>set gs. wf_tokens x" by blast
  let ?rest = "g @ concat gs"
  from g have gne: "g \<noteq> []" and m: "isalpha m" and gm: "\<forall>t\<in>set g. fst t = m"
    by (auto simp: group_ok_def)
  from gne gm obtain b g' where gc: "g = (m, b) # g'" by (cases g) auto
  then obtain r where r: "render ?rest = m # r" using render_starts [of "(m, b)" "g' @ concat gs"] by auto
  have wfrest: "wf_tokens ?rest" using group_ok_wf [OF g] wf_concat [OF wfgs] by simp
  let ?sep = "if h = [] then [] else ''_''"
  have str: "render (h @ ?rest) = (render h @ ?sep) @ m # r"
    using gne r by (simp add: render_append_gen)
  from Cons.prems(3) have "m \<notin> fst ` set h" by simp
  with set_render_upper [of h] isalpha_not_sep [OF m] have "m \<notin> set (render h @ ?sep)"
    by auto
  from find_char [OF this, of r] have f: "py_find (render (h @ ?rest)) [m] = Some (length (render h @ ?sep))"
    unfolding str .
  have tk: "clean_string (take (length (render h @ ?sep)) (render (h @ ?rest))) = render h"
    unfolding str using clean_render [OF Cons.prems(2)] clean_render_us [OF Cons.prems(2)]
    by (cases "h = []") simp_all
  have dr: "clean_string (drop (length (render h @ ?sep)) (render (h @ ?rest))) = render ?rest"
    unfolding str using clean_render [OF wfrest] r by simp
  from Cons.prems(1) gm have fresh: "\<forall>x\<in>set ms'. x \<notin> fst ` set g" and d: "distinct ms'"
    by auto
  have "split_loop (m # ms') (render (h @ concat (g # gs))) acc
          = split_loop ms' (render (g @ concat gs)) (acc @ [render h])"
    using f tk dr by simp
  also have "\<dots> = Inr (render (last (g # gs)), (acc @ [render h]) @ map render (butlast (g # gs)))"
    using Cons.IH [OF d group_ok_wf [OF g] fresh] .
  finally show ?case by simp
qed

lemma groups_ok:
  assumes "wf_tokens ts"
  shows "list_all2 group_ok (mode_list ts) (groups ts)"
proof -
  have "group_ok m (group_of ts m)" if "m \<in> set (mode_list ts)" for m
  proof -
    from that mode_list_props(1) [OF assms] obtain t where "t \<in> set ts" "fst t = m" by auto
    then have "group_of ts m \<noteq> []" by (auto simp: group_of_def filter_empty_conv)
    moreover from that assms have "isalpha m" by (auto simp: mode_list_props wf_tokens_def)
    ultimately show ?thesis by (auto simp: group_ok_def group_of_def)
  qed
  then show ?thesis
    by (simp add: groups_def list_all2_conv_all_nth)
qed

lemma organized_concat: "organized ts = concat (groups ts)"
  by (simp add: organized_def groups_def)

lemma list_remove_head: "list_remove (x # xs) x = Inr xs"
  by (simp add: list_remove_def)

lemma split_modes_organized:
  assumes "wf_tokens ts"
  shows "split_modes (render (organized ts)) = Inr (map render (groups ts))"
proof -
  have fm: "find_modes [(render (organized ts), 1::int)] = mode_list ts"
    using mode_list_organized [OF assms] by (simp add: mode_list_def)
  have d: "distinct (mode_list ts)"
    using mode_list_props(2) [OF assms] by (simp add: strict_sorted_iff)
  have "split_loop (mode_list ts) (render ([] @ concat (groups ts))) []
          = Inr (render (last ([] # groups ts)), [] @ map render (butlast ([] # groups ts)))"
    by (rule split_loop_groups [OF groups_ok [OF assms] d]) simp_all
  then have sl: "split_loop (mode_list ts) (render (organized ts)) []
          = Inr (render (last ([] # groups ts)), map render (butlast ([] # groups ts)))"
    by (simp add: organized_concat)
  have wfl: "wf_tokens (last ([] # groups ts))"
  proof (cases "groups ts = []")
    case True
    then show ?thesis by simp
  next
    case False
    then have "last ([] # groups ts) \<in> set (groups ts)" by simp
    then show ?thesis using groups_wf [OF groups_ok [OF assms]] by blast
  qed
  have "map render (butlast ([] # groups ts)) @ [clean_string (render (last ([] # groups ts)))]
          = map render (butlast ([] # groups ts) @ [last ([] # groups ts)])"
    by (simp only: clean_render [OF wfl] map_append list.map)
  also have "\<dots> = [] # map render (groups ts)"
  proof -
    have "butlast ([] # groups ts) @ [last ([] # groups ts)] = [] # groups ts"
      by (rule append_butlast_last_id) simp
    then show ?thesis by (simp only: list.map render.simps)
  qed
  finally show ?thesis
    unfolding split_modes_def fm sl by (simp add: list_remove_head)
qed

lemma fold_invariant:
  assumes "\<And>x s. x \<in> set xs \<Longrightarrow> P s \<Longrightarrow> P (f x s)" "P s"
  shows "P (fold f xs s)"
  using assms by (induction xs arbitrary: s) auto

lemma wf_dict_Nil [simp]: "wf_dict []"
  by (simp add: wf_dict_def keys_def)

lemma wf_dict_set: "wf_dict d \<Longrightarrow> wf_key k \<Longrightarrow> wf_dict (dict_set d k v)"
  by (simp add: wf_dict_def keys_dict_set)

lemma wf_add_entry: "wf_dict d \<Longrightarrow> wf_key (fst kv) \<Longrightarrow> wf_dict (add_entry kv d)"
  by (simp add: wf_dict_def keys_add_entry)

lemma wf_add_expr_dicts: "wf_dict d1 \<Longrightarrow> wf_dict d2 \<Longrightarrow> wf_dict (add_expr_dicts d1 d2)"
  by (auto simp: wf_dict_def keys_add_expr_dicts)

lemma wf_key_join: "wf_key k1 \<Longrightarrow> wf_key k2 \<Longrightarrow> wf_key (clean_string (k1 @ ''_'' @ k2))"
proof -
  assume "wf_key k1" "wf_key k2"
  then obtain ts1 ts2 where a: "wf_tokens ts1" "k1 = render ts1" and b: "wf_tokens ts2" "k2 = render ts2"
    by (auto simp: wf_key_def)
  from clean_join [OF a(1) b(1)] a b have "clean_string (k1 @ ''_'' @ k2) = render (ts1 @ ts2)"
    by simp
  moreover from a b have "wf_tokens (ts1 @ ts2)" by simp
  ultimately show ?thesis unfolding wf_key_def by blast
qed

lemma wf_mult_entry:
  "wf_dict result \<Longrightarrow> wf_key (fst kv1) \<Longrightarrow> wf_key (fst kv2) \<Longrightarrow> wf_dict (mult_entry kv1 kv2 result)"
proof -
  assume r: "wf_dict result" and "wf_key (fst kv1)" "wf_key (fst kv2)"
  then have "wf_key (clean_string (fst kv1 @ ''_'' @ fst kv2))" by (intro wf_key_join)
  with r show ?thesis
    unfolding mult_entry_def Let_def by (cases "map_of result (clean_string (fst kv1 @ ''_'' @ fst kv2))")
      (simp_all only: option.case wf_dict_set)
qed

lemma wf_dict_key: "wf_dict d \<Longrightarrow> kv \<in> set d \<Longrightarrow> wf_key (fst kv)"
  by (auto simp: wf_dict_def keys_def)

lemma wf_multiply_dicts:
  assumes "wf_dict d1" "wf_dict d2"
  shows "wf_dict (multiply_normal_ordered_single_mode_dicts d1 d2)"
  unfolding multiply_normal_ordered_single_mode_dicts_def
proof (rule fold_invariant)
  fix kv1 and s :: "'a dict"
  assume kv1: "kv1 \<in> set d1" and s: "wf_dict s"
  show "wf_dict (fold (mult_entry kv1) d2 s)"
  proof (rule fold_invariant)
    fix kv2 and s' :: "'a dict"
    assume "kv2 \<in> set d2" "wf_dict s'"
    then show "wf_dict (mult_entry kv1 kv2 s')"
      using wf_dict_key [OF assms(1) kv1] wf_dict_key [OF assms(2)] by (simp add: wf_mult_entry)
  qed (rule s)
qed simp

lemma same_mode_single: "\<forall>t\<in>set g. fst t = m \<Longrightarrow> single_mode m (map snd g) = g"
  by (induction g) auto

lemma group_single_mode: "group_ok m g \<Longrightarrow> g = single_mode m (map snd g)"
  by (simp add: group_ok_def same_mode_single)

lemma groups_have_mode: "list_all2 group_ok ms gs \<Longrightarrow> g \<in> set gs \<Longrightarrow> \<exists>m. group_ok m g"
  by (induction rule: list_all2_induct) auto

lemma normal_form_wf_key: "isalpha m \<Longrightarrow> normal_form m k \<Longrightarrow> wf_key k"
  unfolding normal_form_def wf_key_def using wf_single_mode by blast

lemma normal_ordering_group:
  assumes "group_ok m g"
  shows "\<exists>d. normal_ordering m (render g) c = Some d \<and> wf_dict d"
proof -
  from assms have m: "isalpha m" by (simp add: group_ok_def)
  from normal_ordering_total [OF m, of "map snd g" c] group_single_mode [OF assms]
  obtain d where "normal_ordering m (render g) c = Some d" "\<forall>k\<in>set (keys d). normal_form m k"
    by auto
  with normal_form_wf_key [OF m] show ?thesis by (auto simp: wf_dict_def)
qed

lemma combine_modes_total:
  assumes "\<forall>g\<in>set gs. \<exists>m. group_ok m g" "wf_dict temp"
  shows "\<exists>temp'. combine_modes (map render gs) temp = Inr temp' \<and> wf_dict temp'"
  using assms
proof (induction gs arbitrary: temp)
  case Nil
  then show ?case by simp
next
  case (Cons g gs)
  then obtain m where g: "group_ok m g" by auto
  then obtain b g' where "g = (m, b) # g'" by (cases g) (auto simp: group_ok_def)
  then obtain r where r: "render g = m # r" using render_starts [of "(m, b)" g'] by auto
  from normal_ordering_group [OF g, of "1::'a"] obtain d where
    d: "normal_ordering m (m # r) (1::'a) = Some d" and wd: "wf_dict d" unfolding r by blast
  let ?t = "if temp = [] then d else multiply_normal_ordered_single_mode_dicts temp d"
  have "wf_dict ?t" using wd Cons.prems(2) by (simp add: wf_multiply_dicts)
  with Cons.IH [of ?t] Cons.prems(1) obtain temp' where
    "combine_modes (map render gs) ?t = Inr temp'" "wf_dict temp'" by auto
  then show ?case using d by (simp add: r)
qed

lemma keys_scale: "keys (map (\<lambda>(key, v). (key, f v)) d) = keys d"
  by (induction d) (auto simp: keys_def)

lemma multiply_pair_total:
  fixes tc1 :: "string \<times> 'c::{one,plus,times}"
  assumes "wf_key (fst tc1)" "wf_key (fst tc2)" "wf_dict result"
  shows "\<exists>r. multiply_pair tc1 tc2 result = Inr r \<and> wf_dict r"
proof (cases "fst tc1 = [] \<and> fst tc2 = []")
  case True
  have "wf_key []" unfolding wf_key_def by (rule exI [of _ "[]"]) simp
  then have "wf_dict [([], snd tc1 * snd tc2)]" by (simp add: wf_dict_def keys_def)
  with True assms(3) show ?thesis
    by (simp add: multiply_pair_def wf_add_expr_dicts)
next
  case False
  from assms obtain ts1 ts2 where a: "wf_tokens ts1" "fst tc1 = render ts1"
    and b: "wf_tokens ts2" "fst tc2 = render ts2"
    by (auto simp: wf_key_def)
  let ?ts = "ts1 @ ts2"
  from a b have wf: "wf_tokens ?ts" by simp
  have h: "hspace_organize (fst tc1 @ ''_'' @ fst tc2) = render (organized ?ts)"
    using hspace_organize_product [OF a(1) b(1)] a(2) b(2) by simp
  have sm: "split_modes (render (organized ?ts)) = Inr (map render (groups ?ts))"
    by (rule split_modes_organized [OF wf])
  have "\<forall>g\<in>set (groups ?ts). \<exists>m. group_ok m g"
    using groups_have_mode [OF groups_ok [OF wf]] by blast
  from combine_modes_total [OF this wf_dict_Nil] obtain temp where
    cm: "combine_modes (map render (groups ?ts)) ([] :: 'c dict) = Inr temp" and wt: "wf_dict temp"
    by blast
  have "wf_dict (map (\<lambda>(key, v). (key, v * (snd tc1 * snd tc2))) temp)"
    using wt by (simp add: wf_dict_def keys_scale)
  with assms(3) have "wf_dict (add_expr_dicts result (map (\<lambda>(key, v). (key, v * (snd tc1 * snd tc2))) temp))"
    by (rule wf_add_expr_dicts)
  moreover have "multiply_pair tc1 tc2 result
      = Inr (add_expr_dicts result (map (\<lambda>(key, v). (key, v * (snd tc1 * snd tc2))) temp))"
    unfolding multiply_pair_def Let_def h
    by (simp only: False if_False sum.case sm cm)
  ultimately show ?thesis by blast
qed

lemma for_each_total:
  assumes "\<And>x s. x \<in> set xs \<Longrightarrow> P s \<Longrightarrow> \<exists>s'. body x s = Inr s' \<and> P s'" "P s"
  shows "\<exists>s'. for_each body xs s = Inr s' \<and> P s'"
  using assms
proof (induction xs arbitrary: s)
  case Nil
  then show ?case by simp
next
  case (Cons x xs)
  from Cons.prems(1) [of x s] Cons.prems(2) obtain s1 where s1: "body x s = Inr s1" "P s1" by auto
  from Cons.IH [of s1] Cons.prems(1) s1(2) obtain s' where "for_each body xs s1 = Inr s'" "P s'"
    by auto
  with s1 show ?case by simp
qed

lemma multiply_total:
  assumes "wf_expr A" "wf_expr B"
  shows "\<exists>R. multiply A B = Inr R \<and> wf_expr R"
proof -
  have inner: "\<exists>s'. for_each (multiply_pair tc1) (expr_dict B) s = Inr s' \<and> wf_dict s'"
    if "tc1 \<in> set (expr_dict A)" "wf_dict s" for tc1 and s :: "'a dict"
  proof (rule for_each_total [where P = wf_dict])
    fix tc2 and r :: "'a dict"
    assume tc2: "tc2 \<in> set (expr_dict B)" and r: "wf_dict r"
    from assms(1) that(1) have k1: "wf_key (fst tc1)" unfolding wf_expr_def by (rule wf_dict_key)
    from assms(2) tc2 have k2: "wf_key (fst tc2)" unfolding wf_expr_def by (rule wf_dict_key)
    from k1 k2 r show "\<exists>s'. multiply_pair tc1 tc2 r = Inr s' \<and> wf_dict s'"
      by (rule multiply_pair_total)
  qed (rule that(2))
  have "\<exists>d. for_each (\<lambda>tc1 result. for_each (multiply_pair tc1) (expr_dict B) result) (expr_dict A) []
          = Inr d \<and> wf_dict (d :: 'a dict)"
    by (rule for_each_total [where P = wf_dict]) (rule inner, assumption+, rule wf_dict_Nil)
  then show ?thesis
    by (auto simp: multiply_def wf_expr_def)
qed

lemma power_loop_total:
  assumes "wf_expr A" "wf_expr R0"
  shows "\<exists>R. power_loop k R0 A = Inr R \<and> wf_expr R"
  using assms(2)
proof (induction k arbitrary: R0)
  case 0
  then show ?case by simp
next
  case (Suc k)
  from multiply_total [OF Suc.prems assms(1)] obtain R1 where
    "multiply R0 A = Inr R1" "wf_expr R1" by blast
  with Suc.IH [of R1] show ?case by simp
qed

lemma wf_fold_set:
  assumes "wf_dict d" "wf_dict d0"
  shows "wf_dict (fold (\<lambda>(t, coeff) acc. dict_set acc t (f coeff)) d d0)"
proof (rule fold_invariant [where P = wf_dict])
  fix x :: "string \<times> 'a" and s :: "'b dict"
  assume "x \<in> set d" "wf_dict s"
  with wf_dict_key [OF assms(1)] show "wf_dict ((case x of (t, coeff) \<Rightarrow> \<lambda>acc. dict_set acc t (f coeff)) s)"
    by (cases x) (auto intro: wf_dict_set)
qed (rule assms(2))

lemma wf_add: "wf_expr A \<Longrightarrow> wf_expr B \<Longrightarrow> wf_expr (add A B)"
proof -
  assume A: "wf_expr A" and B: "wf_expr B"
  have 1: "wf_dict (fold (\<lambda>(t, coeff) d. dict_set d t coeff) (expr_dict A) [])"
    using wf_fold_set [of "expr_dict A" "[]" "\<lambda>c. c"] A by (simp add: wf_expr_def)
  have "wf_dict (fold add_entry (expr_dict B) (fold (\<lambda>(t, coeff) d. dict_set d t coeff) (expr_dict A) []))"
  proof (rule fold_invariant [where P = wf_dict])
    fix x :: "string \<times> 'a" and s :: "'a dict"
    assume "x \<in> set (expr_dict B)" "wf_dict s"
    with B show "wf_dict (add_entry x s)"
      by (auto simp: wf_expr_def intro: wf_add_entry wf_dict_key)
  qed (rule 1)
  then show ?thesis by (simp add: add_def wf_expr_def Let_def)
qed

lemma wf_scalar_multiply: "wf_expr A \<Longrightarrow> wf_expr (scalar_multiply A s)"
proof -
  assume A: "wf_expr A"
  have "wf_dict (fold (\<lambda>(t, coeff) d. dict_set d t (coeff * s)) (expr_dict A) [])"
    using wf_fold_set [of "expr_dict A" "[]" "\<lambda>c. c * s"] A by (simp add: wf_expr_def)
  then show ?thesis by (simp add: scalar_multiply_def wf_expr_def Let_def)
qed

lemma split_modes_product:
  assumes "wf_key t1" "wf_key t2"
  shows "\<exists>pieces. split_modes (hspace_organize (t1 @ ''_'' @ t2)) = Inr pieces"
proof -
  from assms obtain ts1 ts2 where a: "wf_tokens ts1" "t1 = render ts1"
    and b: "wf_tokens ts2" "t2 = render ts2"
    by (auto simp: wf_key_def)
  from a(1) b(1) have wf: "wf_tokens (ts1 @ ts2)" by simp
  have "split_modes (hspace_organize (t1 @ ''_'' @ t2)) = Inr (map render (groups (ts1 @ ts2)))"
    unfolding a(2) b(2) hspace_organize_product [OF a(1) b(1)]
    by (rule split_modes_organized [OF wf])
  then show ?thesis ..
qed

lemma wf_key_tokens: "wf_tokens ts \<Longrightarrow> wf_key (render ts)"
  unfolding wf_key_def by blast

text \<open>
  What \<open>scalar_multiply\<close> returns on a dictionary (distinct keys): the same keys in the
  same order, every coefficient multiplied by the scalar, and an empty mode set.
\<close>

lemma dict_set_fresh: "k \<notin> set (keys d) \<Longrightarrow> dict_set d k v = d @ [(k, v)]"
  by (induction d) (auto simp: keys_def)

lemma fold_dict_set_distinct:
  "distinct (keys d) \<Longrightarrow> set (keys d0) \<inter> set (keys d) = {}
    \<Longrightarrow> fold (\<lambda>(t, coeff) acc. dict_set acc t (f coeff)) d d0
          = d0 @ map (\<lambda>(t, coeff). (t, f coeff)) d"
proof (induction d arbitrary: d0)
  case Nil
  then show ?case by simp
next
  case (Cons kv d)
  obtain t c where kv: "kv = (t, c)" by (cases kv)
  from Cons.prems kv have fresh: "t \<notin> set (keys d0)" and d: "distinct (keys d)"
    and t: "t \<notin> set (keys d)" and disj: "set (keys d0) \<inter> set (keys d) = {}"
    by (auto simp: keys_def)
  from t disj have "set (keys (d0 @ [(t, f c)])) \<inter> set (keys d) = {}"
    by (auto simp: keys_def)
  from Cons.IH [OF d this] show ?case
    by (simp add: kv dict_set_fresh [OF fresh])
qed

lemma find_modes_empty: "find_modes [] = []"
  by (simp add: find_modes_def keys_def)

lemma scalar_multiply_distinct:
  assumes "distinct (keys (expr_dict A))"
  shows "scalar_multiply A s
           = \<lparr>expr_dict = map (\<lambda>(t, coeff). (t, coeff * s)) (expr_dict A), modes = []\<rparr>"
  using fold_dict_set_distinct [OF assms, of "[]" "\<lambda>c. c * s"]
  by (simp add: scalar_multiply_def find_modes_empty keys_def)

section \<open>The claims\<close>

text \<open>
  Claim C1 (evaluated on the code). The direct check of the commutation identity:
  \<open>Expression("a").multiply(Expression("a+"))\<close> is \<open>{"a+_a": 1, "": 1}\<close>, but
  \<open>add(Expression("a+").multiply(Expression("a")), Expression("1"))\<close> is
  \<open>{"a+_a": 1, "1": 1}\<close>: the parser stores the constant term \<open>1\<close> under the key \<open>"1"\<close>,
  not under the constant key \<open>""\<close>, so the two sides differ.
\<close>

theorem commutation_check_on_code:
  "Expression_init py_complex ''a'' = Inr \<lparr>expr_dict = [(''a'', 1)], modes = ''a''\<rparr>
   \<and> Expression_init py_complex ''a+'' = Inr \<lparr>expr_dict = [(''a+'', 1)], modes = ''a''\<rparr>
   \<and> Expression_init py_complex ''1'' = Inr \<lparr>expr_dict = [(''1'', 1)], modes = []\<rparr>
   \<and> multiply \<lparr>expr_dict = [(''a'', 1::complex)], modes = ''a''\<rparr>
        \<lparr>expr_dict = [(''a+'', 1)], modes = ''a''\<rparr>
      = Inr \<lparr>expr_dict = [(''a+_a'', 1), ([], 1)], modes = ''a''\<rparr>
   \<and> multiply \<lparr>expr_dict = [(''a+'', 1::complex)], modes = ''a''\<rparr>
        \<lparr>expr_dict = [(''a'', 1)], modes = ''a''\<rparr>
      = Inr \<lparr>expr_dict = [(''a+_a'', 1)], modes = ''a''\<rparr>
   \<and> add \<lparr>expr_dict = [(''a+_a'', 1::complex)], modes = ''a''\<rparr>
        \<lparr>expr_dict = [(''1'', 1)], modes = []\<rparr>
      = \<lparr>expr_dict = [(''a+_a'', 1), (''1'', 1)], modes = ''a''\<rparr>
   \<and> map_of [(''a+_a'', 1::complex), ([], 1)] [] = Some 1
   \<and> map_of [(''a+_a'', 1::complex), (''1'', 1)] [] = None"
  by code_simp

text \<open>
  Claim C2. \<open>power(Expression("a+_a"), 2)\<close> returns the dictionary
  \<open>{"a+_a+_a_a": 1, "a+_a": 1}\<close> and no other key.
\<close>

theorem power_number_operator_squared:
  "Expression_init py_complex ''a+_a'' = Inr \<lparr>expr_dict = [(''a+_a'', 1)], modes = ''a''\<rparr>
   \<and> power_expr \<lparr>expr_dict = [(''a+_a'', 1::complex)], modes = ''a''\<rparr> 2
      = Inr \<lparr>expr_dict = [(''a+_a+_a_a'', 1), (''a+_a'', 1)], modes = ''a''\<rparr>"
  by code_simp

text \<open>
  Claim C3. For every single-mode token sequence (mode a letter) and every coefficient,
  \<open>normal_ordering\<close> returns a dictionary, and every key of it has no annihilation
  operator immediately followed by a creation operator (no occurrence of \<open>n_dag\<close>) and is
  a token sequence whose creation tokens all come before its annihilation tokens.
\<close>

theorem normal_ordering_output_normal_ordered:
  assumes "isalpha mode"
  shows "\<exists>d. normal_ordering mode (render (single_mode mode bs)) coeff = Some d
           \<and> (\<forall>k\<in>set (keys d). py_find k (n_dag mode) = None
                 \<and> (\<exists>i j. k = render (single_mode mode (replicate i True @ replicate j False))))"
proof -
  from normal_ordering_total [OF assms, of bs coeff] obtain d where
    d: "normal_ordering mode (render (single_mode mode bs)) coeff = Some d"
    and nf: "\<forall>k\<in>set (keys d). normal_form mode k" by blast
  have "py_find k (n_dag mode) = None
          \<and> (\<exists>i j. k = render (single_mode mode (replicate i True @ replicate j False)))"
    if "k \<in> set (keys d)" for k
  proof -
    from nf that have k: "normal_form mode k" by blast
    from normal_form_no_D [OF assms k] have "py_find k (n_dag mode) = None" .
    moreover from k
    have "\<exists>i j. k = render (single_mode mode (replicate i True @ replicate j False))"
      by (simp only: normal_form_def)
    ultimately show ?thesis by (rule conjI)
  qed
  then have "\<forall>k\<in>set (keys d). py_find k (n_dag mode) = None
          \<and> (\<exists>i j. k = render (single_mode mode (replicate i True @ replicate j False)))"
    by (rule ballI)
  with d show ?thesis by (intro exI conjI)
qed

text \<open>Witness for C3: the term \<open>a_a_a+_a+\<close> of mode \<open>a\<close>, with its result.\<close>

theorem normal_ordering_output_normal_ordered_witness:
  "isalpha CHR ''a''
   \<and> render (single_mode CHR ''a'' [False, False, True, True]) = ''a_a_a+_a+''
   \<and> normal_ordering CHR ''a'' ''a_a_a+_a+'' (1::int)
        = Some [(''a+_a+_a_a'', 1), (''a+_a'', 4), ([], 2)]
   \<and> py_find ''a+_a+_a_a'' (n_dag CHR ''a'') = None
   \<and> (\<exists>i j. ''a+_a+_a_a'' = render (single_mode CHR ''a'' (replicate i True @ replicate j False)))
   \<and> py_find ''a+_a'' (n_dag CHR ''a'') = None
   \<and> (\<exists>i j. ''a+_a'' = render (single_mode CHR ''a'' (replicate i True @ replicate j False)))
   \<and> py_find [] (n_dag CHR ''a'') = None
   \<and> (\<exists>i j. [] = render (single_mode CHR ''a'' (replicate i True @ replicate j False)))"
proof -
  have a: "isalpha CHR ''a''" by (simp add: isalpha_def)
  have b: "render (single_mode CHR ''a'' [False, False, True, True]) = ''a_a_a+_a+''"
    by (simp add: tok_def)
  have c: "normal_ordering CHR ''a'' ''a_a_a+_a+'' (1::int)
        = Some [(''a+_a+_a_a'', 1), (''a+_a'', 4), ([], 2)]"
    by code_simp
  from normal_ordering_output_normal_ordered [OF a, of "[False, False, True, True]" "1::int"]
  obtain d where
    d: "normal_ordering CHR ''a'' (render (single_mode CHR ''a'' [False, False, True, True])) (1::int) = Some d"
    and all: "\<forall>k\<in>set (keys d). py_find k (n_dag CHR ''a'') = None
                 \<and> (\<exists>i j. k = render (single_mode CHR ''a'' (replicate i True @ replicate j False)))"
    by blast
  from d have "d = [(''a+_a+_a_a'', 1), (''a+_a'', 4), ([], 2)]"
    unfolding b c by simp
  then have ks: "''a+_a+_a_a'' \<in> set (keys d)" "''a+_a'' \<in> set (keys d)" "[] \<in> set (keys d)"
    by (simp_all add: keys_def)
  note k1 = all [rule_format, OF ks(1)] and k2 = all [rule_format, OF ks(2)]
    and k3 = all [rule_format, OF ks(3)]
  show ?thesis
    by (intro conjI a b c k1 [THEN conjunct1] k1 [THEN conjunct2] k2 [THEN conjunct1]
          k2 [THEN conjunct2] k3 [THEN conjunct1] k3 [THEN conjunct2])
qed

text \<open>
  Claim C4 as stated fails in one clause: the \<open>n\<close> branch can create an out-of-order
  pair further left. In \<open>a_a_a+\<close> the leftmost out-of-order pair starts at index 2; the
  \<open>n\<close> branch rewrites the term to \<open>a_a+_a\<close>, whose leftmost out-of-order pair starts at
  index 0.
\<close>

theorem n_branch_new_pair_further_left:
  "py_find ''a_a_a+'' (n_dag CHR ''a'') = Some 2
   \<and> term_with_n CHR ''a'' ''a_a_a+'' 2 = ''a_a+_a''
   \<and> py_find ''a_a+_a'' (n_dag CHR ''a'') = Some 0"
  by code_simp

text \<open>
  Claim C4, amended. \<open>normal_ordering\<close> returns on every single-mode token sequence. At a
  match, the \<open>1\<close> branch continues with a token sequence two tokens shorter and the \<open>n\<close>
  branch with one of the same length; the \<open>n\<close> branch lowers the number of inversions by
  exactly one and the \<open>1\<close> branch lowers it too, so the recursion is well-founded.
\<close>

theorem normal_ordering_terminates:
  assumes "isalpha mode"
  shows "(\<exists>d. normal_ordering mode (render (single_mode mode bs)) coeff = Some d)
    \<and> (\<forall>idx. py_find (render (single_mode mode bs)) (n_dag mode) = Some idx \<longrightarrow>
          (\<exists>b1 bn.
             term_with_1 mode (render (single_mode mode bs)) idx = render (single_mode mode b1)
             \<and> length b1 + 2 = length bs \<and> inversions b1 < inversions bs
             \<and> term_with_n mode (render (single_mode mode bs)) idx = render (single_mode mode bn)
             \<and> length bn = length bs \<and> Suc (inversions bn) = inversions bs))"
proof -
  have steps: "\<exists>b1 bn.
             term_with_1 mode (render (single_mode mode bs)) idx = render (single_mode mode b1)
             \<and> length b1 + 2 = length bs \<and> inversions b1 < inversions bs
             \<and> term_with_n mode (render (single_mode mode bs)) idx = render (single_mode mode bn)
             \<and> length bn = length bs \<and> Suc (inversions bn) = inversions bs"
    if f: "py_find (render (single_mode mode bs)) (n_dag mode) = Some idx" for idx
  proof -
    from find_Some_split [OF assms f] obtain pre post where sp: "split_D bs = Some (pre, post)"
      by blast
    from split_D_Some [OF sp] have bs: "bs = pre @ [False, True] @ post" .
    from rewrite_terms [OF assms sp] f have
      wn: "term_with_n mode (render (single_mode mode bs)) idx
             = render (single_mode mode (pre @ [True, False] @ post))"
      and w1: "term_with_1 mode (render (single_mode mode bs)) idx
             = render (single_mode mode (pre @ post))"
      by auto
    have l1: "length (pre @ post) + 2 = length bs" unfolding bs by simp
    have i1: "inversions (pre @ post) < inversions bs"
      unfolding bs by (rule inversions_drop)
    have ln: "length (pre @ [True, False] @ post) = length bs" unfolding bs by simp
    have inv: "Suc (inversions (pre @ [True, False] @ post)) = inversions bs"
      unfolding bs inversions_swap by simp
    show ?thesis
      by (intro exI [of _ "pre @ post"] exI [of _ "pre @ [True, False] @ post"] conjI
            w1 l1 i1 wn ln inv)
  qed
  from normal_ordering_total [OF assms, of bs coeff] obtain d where
    "normal_ordering mode (render (single_mode mode bs)) coeff = Some d" by blast
  then have "\<exists>d. normal_ordering mode (render (single_mode mode bs)) coeff = Some d" ..
  moreover from steps have "\<forall>idx. py_find (render (single_mode mode bs)) (n_dag mode) = Some idx \<longrightarrow>
          (\<exists>b1 bn.
             term_with_1 mode (render (single_mode mode bs)) idx = render (single_mode mode b1)
             \<and> length b1 + 2 = length bs \<and> inversions b1 < inversions bs
             \<and> term_with_n mode (render (single_mode mode bs)) idx = render (single_mode mode bn)
             \<and> length bn = length bs \<and> Suc (inversions bn) = inversions bs)"
    by (intro allI impI)
  ultimately show ?thesis by (rule conjI)
qed

text \<open>Witness for C4: the fully reversed term \<open>a_a_a+_a+\<close>.\<close>

theorem normal_ordering_terminates_witness:
  "isalpha CHR ''a''
   \<and> render (single_mode CHR ''a'' [False, False, True, True]) = ''a_a_a+_a+''
   \<and> py_find ''a_a_a+_a+'' (n_dag CHR ''a'') = Some 2
   \<and> term_with_1 CHR ''a'' ''a_a_a+_a+'' 2 = ''a_a+''
   \<and> term_with_n CHR ''a'' ''a_a_a+_a+'' 2 = ''a_a+_a_a+''
   \<and> (\<exists>d. normal_ordering CHR ''a'' ''a_a_a+_a+'' (1::int) = Some d)
   \<and> (\<exists>b1 bn.
          ''a_a+'' = render (single_mode CHR ''a'' b1)
          \<and> length b1 + 2 = length [False, False, True, True]
          \<and> inversions b1 < inversions [False, False, True, True]
          \<and> ''a_a+_a_a+'' = render (single_mode CHR ''a'' bn)
          \<and> length bn = length [False, False, True, True]
          \<and> Suc (inversions bn) = inversions [False, False, True, True])"
proof -
  have a: "isalpha CHR ''a''" by (simp add: isalpha_def)
  have b: "render (single_mode CHR ''a'' [False, False, True, True]) = ''a_a_a+_a+''"
    by (simp add: tok_def)
  have c: "py_find ''a_a_a+_a+'' (n_dag CHR ''a'') = Some 2" by code_simp
  have d: "term_with_1 CHR ''a'' ''a_a_a+_a+'' 2 = ''a_a+''" by code_simp
  have e: "term_with_n CHR ''a'' ''a_a_a+_a+'' 2 = ''a_a+_a_a+''" by code_simp
  note main = normal_ordering_terminates [OF a, of "[False, False, True, True]" "1::int",
      unfolded b]
  note ret = main [THEN conjunct1]
  note step = main [THEN conjunct2, rule_format, OF c, unfolded d e]
  show ?thesis
    by (intro conjI a b c d e ret step)
qed

text \<open>
  Claim C5 (evaluated on the code). Parsing \<open>"2a+_a(+)1"\<close> gives the dictionary
  \<open>{"a+_a": 2+0j, "1": 1}\<close> with modes \<open>["a"]\<close>: the constant term is stored under the key
  \<open>"1"\<close>, and nothing is stored under the empty key.
\<close>

theorem parse_constant_term_on_code:
  "Expression_init py_complex ''2a+_a(+)1''
     = Inr \<lparr>expr_dict = [(''a+_a'', 2), (''1'', 1)], modes = ''a''\<rparr>
   \<and> map_of [(''a+_a'', 2::complex), (''1'', 1)] [] = None"
  by code_simp

text \<open>
  Claim C6 (evaluated on the code). \<open>scalar_multiply(Expression("a"), 2)\<close> has the key of
  its argument with the coefficient doubled, but its mode set is empty, while the
  argument's mode set is \<open>["a"]\<close>.
\<close>

theorem scalar_multiply_modes_on_code:
  "Expression_init py_complex ''a'' = Inr \<lparr>expr_dict = [(''a'', 1)], modes = ''a''\<rparr>
   \<and> scalar_multiply \<lparr>expr_dict = [(''a'', 1::complex)], modes = ''a''\<rparr> 2
      = \<lparr>expr_dict = [(''a'', 2)], modes = []\<rparr>"
  by code_simp

text \<open>
  Claim C7 as stated fails: the mode set can contain the letter \<open>j\<close>.
  \<open>Expression("a_j")\<close> is constructed without error and its mode set is \<open>["a", "j"]\<close>.
\<close>

theorem modes_contain_j:
  "Expression_init py_complex ''a_j'' = Inr \<lparr>expr_dict = [(''a_j'', 1)], modes = ''aj''\<rparr>
   \<and> CHR ''j'' \<in> set (modes \<lparr>expr_dict = [(''a_j'', 1::complex)], modes = ''aj''\<rparr>)"
  by code_simp

text \<open>
  Claim C7, amended. For every Expression the constructor returns, the mode set consists
  of exactly the alphabetic characters that occur in the term keys (the letter \<open>j\<close>
  included when a key contains it), each once, in strictly ascending order.
\<close>

theorem modes_sorted_letters_of_keys:
  assumes "Expression_init cplx expr_string = Inr e"
  shows "set (modes e) = {c. isalpha c \<and> (\<exists>k\<in>set (keys (expr_dict e)). c \<in> set k)}
         \<and> sorted_wrt (<) (modes e)"
proof -
  from assms obtain d where "e = \<lparr>expr_dict = d, modes = find_modes d\<rparr>"
    by (auto simp: Expression_init_def split: sum.splits)
  then show ?thesis
    by (simp add: set_find_modes sorted_find_modes)
qed

text \<open>Witness for C7: \<open>Expression("2b+_a(+)1")\<close>.\<close>

theorem modes_sorted_letters_of_keys_witness:
  "Expression_init py_complex ''2b+_a(+)1''
     = Inr \<lparr>expr_dict = [(''b+_a'', 2), (''1'', 1)], modes = ''ab''\<rparr>
   \<and> set (modes \<lparr>expr_dict = [(''b+_a'', 2::complex), (''1'', 1)], modes = ''ab''\<rparr>)
      = {c. isalpha c \<and> (\<exists>k\<in>set (keys (expr_dict
            \<lparr>expr_dict = [(''b+_a'', 2::complex), (''1'', 1)], modes = ''ab''\<rparr>)). c \<in> set k)}
   \<and> sorted_wrt (<) (modes \<lparr>expr_dict = [(''b+_a'', 2::complex), (''1'', 1)], modes = ''ab''\<rparr>)"
proof -
  have a: "Expression_init py_complex ''2b+_a(+)1''
     = Inr \<lparr>expr_dict = [(''b+_a'', 2), (''1'', 1)], modes = ''ab''\<rparr>"
    by code_simp
  note main = modes_sorted_letters_of_keys [OF a]
  show ?thesis by (intro conjI a main [THEN conjunct1] main [THEN conjunct2])
qed

text \<open>
  Claim C8. On Expressions whose keys are all token sequences, \<open>multiply\<close> and \<open>power\<close>
  return an Expression of the same kind (no error is raised), \<open>add\<close> and
  \<open>scalar_multiply\<close> return one too, and for every pair of keys \<open>split_modes\<close> returns: its
  assertion holds and the removal of the empty string finds an element.
\<close>

theorem algebra_total_on_well_formed:
  fixes A B :: "'c::{one,plus,times} Expression"
  assumes "wf_expr A" "wf_expr B"
  shows "(\<exists>R. multiply A B = Inr R \<and> wf_expr R)
    \<and> (\<exists>R. power_expr A n = Inr R \<and> wf_expr R)
    \<and> wf_expr (add A B)
    \<and> wf_expr (scalar_multiply A s)
    \<and> (\<forall>t1\<in>set (keys (expr_dict A)). \<forall>t2\<in>set (keys (expr_dict B)).
          \<exists>pieces. split_modes (hspace_organize (t1 @ ''_'' @ t2)) = Inr pieces)"
proof (intro conjI ballI)
  show "\<exists>R. multiply A B = Inr R \<and> wf_expr R"
    using assms by (rule multiply_total)
  show "\<exists>R. power_expr A n = Inr R \<and> wf_expr R"
    unfolding power_expr_def using assms(1) assms(1) by (rule power_loop_total)
  show "wf_expr (add A B)" using assms by (rule wf_add)
  show "wf_expr (scalar_multiply A s)" using assms(1) by (rule wf_scalar_multiply)
next
  fix t1 t2
  assume "t1 \<in> set (keys (expr_dict A))" "t2 \<in> set (keys (expr_dict B))"
  with assms have "wf_key t1" "wf_key t2" by (auto simp: wf_expr_def wf_dict_def)
  then show "\<exists>pieces. split_modes (hspace_organize (t1 @ ''_'' @ t2)) = Inr pieces"
    by (rule split_modes_product)
qed

text \<open>
  Witness for C8: \<open>A = {"b_a+": 1, "": 1}\<close> and \<open>B = {"a_b+": 1}\<close>, with the product, the
  square of \<open>A\<close> and the split of \<open>b_a+_a_b+\<close>.
\<close>

theorem algebra_total_on_well_formed_witness:
  "(\<exists>R. multiply \<lparr>expr_dict = [(''b_a+'', 1::int), ([], 1)], modes = ''ab''\<rparr>
            \<lparr>expr_dict = [(''a_b+'', 1)], modes = ''ab''\<rparr> = Inr R)
   \<and> multiply \<lparr>expr_dict = [(''b_a+'', 1::int), ([], 1)], modes = ''ab''\<rparr>
        \<lparr>expr_dict = [(''a_b+'', 1)], modes = ''ab''\<rparr>
      = Inr \<lparr>expr_dict = [(''a+_a_b+_b'', 1), (''a+_a'', 1), (''a_b+'', 1)], modes = ''ab''\<rparr>
   \<and> (\<exists>R. power_expr \<lparr>expr_dict = [(''b_a+'', 1::int), ([], 1)], modes = ''ab''\<rparr> 2 = Inr R)
   \<and> power_expr \<lparr>expr_dict = [(''b_a+'', 1::int), ([], 1)], modes = ''ab''\<rparr> 2
      = Inr \<lparr>expr_dict = [(''a+_a+_b_b'', 1), (''a+_b'', 2), ([], 1)], modes = ''ab''\<rparr>
   \<and> (\<exists>pieces. split_modes (hspace_organize (''b_a+'' @ ''_'' @ ''a_b+'')) = Inr pieces)
   \<and> split_modes (hspace_organize (''b_a+'' @ ''_'' @ ''a_b+'')) = Inr [''a+_a'', ''b_b+'']"
proof -
  let ?A = "\<lparr>expr_dict = [(''b_a+'', 1::int), ([], 1)], modes = ''ab''\<rparr>"
  let ?B = "\<lparr>expr_dict = [(''a_b+'', 1::int)], modes = ''ab''\<rparr>"
  have a: "isalpha CHR ''a''" "isalpha CHR ''b''" by (simp_all add: isalpha_def)
  have k1: "wf_key ''b_a+''"
    using wf_key_tokens [of "[(CHR ''b'', False), (CHR ''a'', True)]"] a
    by (simp add: wf_tokens_def tok_def)
  have k2: "wf_key []"
    using wf_key_tokens [of "[]"] by (simp add: wf_tokens_def)
  have k3: "wf_key ''a_b+''"
    using wf_key_tokens [of "[(CHR ''a'', False), (CHR ''b'', True)]"] a
    by (simp add: wf_tokens_def tok_def)
  have A: "wf_expr ?A" using k1 k2 by (simp add: wf_expr_def wf_dict_def keys_def)
  have B: "wf_expr ?B" using k3 by (simp add: wf_expr_def wf_dict_def keys_def)
  note main = algebra_total_on_well_formed [OF A B, of 2 1]
  from main have m: "\<exists>R. multiply ?A ?B = Inr R" by blast
  from main have p: "\<exists>R. power_expr ?A 2 = Inr R" by blast
  have inA: "''b_a+'' \<in> set (keys (expr_dict ?A))" by (simp add: keys_def)
  have inB: "''a_b+'' \<in> set (keys (expr_dict ?B))" by (simp add: keys_def)
  note sp = main [THEN conjunct2, THEN conjunct2, THEN conjunct2, THEN conjunct2,
      rule_format, OF inA inB]
  have mv: "multiply ?A ?B
      = Inr \<lparr>expr_dict = [(''a+_a_b+_b'', 1), (''a+_a'', 1), (''a_b+'', 1)], modes = ''ab''\<rparr>"
    by code_simp
  have pv: "power_expr ?A 2
      = Inr \<lparr>expr_dict = [(''a+_a+_b_b'', 1), (''a+_b'', 2), ([], 1)], modes = ''ab''\<rparr>"
    by code_simp
  have sv: "split_modes (hspace_organize (''b_a+'' @ ''_'' @ ''a_b+'')) = Inr [''a+_a'', ''b_b+'']"
    by code_simp
  show ?thesis by (intro conjI m mv p pv sp sv)
qed

text \<open>
  The token-sequence hypothesis of C8 is needed: the key \<open>3j\<close>, which the parser produces
  for the constant term \<open>3j\<close>, makes \<open>multiply\<close> raise the \<open>ValueError\<close> of \<open>remove\<close>.
\<close>

lemma multiply_constant_key_raises:
  "Expression_init py_complex ''3j'' = Inr \<lparr>expr_dict = [(''3j'', 1)], modes = ''j''\<rparr>
   \<and> multiply \<lparr>expr_dict = [(''3j'', 1::complex)], modes = ''j''\<rparr>
        \<lparr>expr_dict = [(''3j'', 1)], modes = ''j''\<rparr> = Inl ValueError"
  by code_simp

text \<open>
  The path of the parser that calls \<open>complex\<close>: if some term of a non-empty input has its
  first letter other than \<open>j\<close> at a positive index, and \<open>complex\<close> rejects the text before
  that index, the construction fails with the error of \<open>complex\<close>.
\<close>

lemma bad_coefficient_rejected:
  assumes "expr_string \<noteq> []"
    and "t \<in> set (py_split expr_string ''(+)'')"
    and "0 < find_first_alphabet_index t"
    and "cplx (take (find_first_alphabet_index t) t) = None"
  shows "Expression_init cplx expr_string = Inl ValueError"
proof -
  have "parse_terms cplx (py_split expr_string ''(+)'') [] = Inl ValueError"
    using assms(2,3,4) by (rule parse_terms_bad_prefix)
  with assms(1) show ?thesis
    by (simp add: Expression_init_def parse_expr_string_def)
qed

text \<open>An instance: \<open>Expression("a(+)2+b")\<close>, whose second term has the prefix \<open>2+\<close>.\<close>

lemma bad_coefficient_rejected_example:
  "''a(+)2+b'' \<noteq> [] \<and> ''2+b'' \<in> set (py_split ''a(+)2+b'' ''(+)'')
   \<and> 0 < find_first_alphabet_index ''2+b''
   \<and> take (find_first_alphabet_index ''2+b'') ''2+b'' = ''2+''
   \<and> py_complex (take (find_first_alphabet_index ''2+b'') ''2+b'') = None
   \<and> Expression_init py_complex ''a(+)2+b'' = Inl ValueError"
proof -
  have a: "''a(+)2+b'' \<noteq> []" by simp
  have b: "''2+b'' \<in> set (py_split ''a(+)2+b'' ''(+)'')" by code_simp
  have c: "0 < find_first_alphabet_index ''2+b''" by code_simp
  have d: "py_complex (take (find_first_alphabet_index ''2+b'') ''2+b'') = None" by code_simp
  have e: "take (find_first_alphabet_index ''2+b'') ''2+b'' = ''2+''" by code_simp
  have main: "Expression_init py_complex ''a(+)2+b'' = Inl ValueError"
    using a b c d by (rule bad_coefficient_rejected)
  show ?thesis by (intro conjI a b c d e main)
qed

text \<open>
  Claim C9 (evaluated on the code). The term \<open>2+\<close> has no letter, so all of it is
  coefficient text, and \<open>complex\<close> rejects it. \<open>find_first_alphabet_index\<close> returns 0 for
  it, the parser takes the branch that never calls \<open>complex\<close>, and \<open>Expression("2+")\<close> is
  constructed as \<open>{"2+": 1}\<close> without any error. With a letter after the same text,
  \<open>Expression("2+b")\<close> is rejected.
\<close>

theorem letterless_bad_literal_accepted:
  "find_first_alphabet_index ''2+'' = 0
   \<and> py_complex ''2+'' = None
   \<and> Expression_init py_complex ''2+'' = Inr \<lparr>expr_dict = [(''2+'', 1)], modes = []\<rparr>
   \<and> Expression_init py_complex ''2+b'' = Inl ValueError"
  by code_simp

text \<open>
  Claim C10. When the construction succeeds, every term of the input that has no letter
  other than \<open>j\<close> is itself a key of the dictionary, with coefficient 1.
\<close>

theorem letterless_term_is_key:
  assumes "expr_string \<noteq> []"
    and "t \<in> set (py_split expr_string ''(+)'')"
    and "\<forall>c\<in>set t. isalpha c \<longrightarrow> c = CHR ''j''"
    and "Expression_init cplx expr_string = Inr e"
  shows "map_of (expr_dict e) t = Some 1"
proof -
  from assms(1,4) obtain d where d: "parse_terms cplx (py_split expr_string ''(+)'') [] = Inr d"
    and e: "e = \<lparr>expr_dict = d, modes = find_modes d\<rparr>"
    by (auto simp: Expression_init_def parse_expr_string_def split: sum.splits)
  from parse_terms_constant_key [OF d assms(3)] assms(2) e show ?thesis by simp
qed

text \<open>Witness for C10: \<open>Expression("1").expr_dict\<close> is \<open>{"1": 1}\<close>.\<close>

theorem letterless_term_is_key_witness:
  "''1'' \<noteq> [] \<and> ''1'' \<in> set (py_split ''1'' ''(+)'')
   \<and> Expression_init py_complex ''1'' = Inr \<lparr>expr_dict = [(''1'', 1)], modes = []\<rparr>
   \<and> map_of (expr_dict \<lparr>expr_dict = [(''1'', 1::complex)], modes = []\<rparr>) ''1'' = Some 1"
proof -
  have a: "''1'' \<noteq> []" by simp
  have b: "''1'' \<in> set (py_split ''1'' ''(+)'')" by code_simp
  have c: "\<forall>c\<in>set ''1''. isalpha c \<longrightarrow> c = CHR ''j''" by (simp add: isalpha_def)
  have d: "Expression_init py_complex ''1'' = Inr \<lparr>expr_dict = [(''1'', 1)], modes = []\<rparr>"
    by code_simp
  have main: "map_of (expr_dict \<lparr>expr_dict = [(''1'', 1::complex)], modes = []\<rparr>) ''1'' = Some 1"
    using a b c d by (rule letterless_term_is_key)
  show ?thesis by (intro conjI a b d main)
qed

end
